theory Spec2Isabelle
  imports Complex_Main "HOL-Library.Multiset" "HOL-Library.Sublist"
begin

section \<open>JavaScript strings\<close>

text \<open>
  A JavaScript string is modelled as a \<^typ>\<open>string\<close> whose characters stand for the code
  units U+0000 .. U+00FF. On that range \<open>String.prototype.trim\<close> strips TAB, LF, VT, FF, CR,
  SPACE and NBSP, and \<open>toLowerCase\<close> moves A..Z and the Latin-1 capitals by 32.
\<close>

definition js_ws :: "char \<Rightarrow> bool" where
  "js_ws c \<longleftrightarrow> (of_char c :: nat) \<in> {9, 10, 11, 12, 13, 32, 160}"

definition trim :: "string \<Rightarrow> string" where
  "trim s = rev (dropWhile js_ws (rev (dropWhile js_ws s)))"

definition js_lower :: "char \<Rightarrow> char" where
  "js_lower c =
     (let n = (of_char c :: nat)
      in if (65 \<le> n \<and> n \<le> 90) \<or> (192 \<le> n \<and> n \<le> 222 \<and> n \<noteq> 215)
         then char_of (n + 32) else c)"

definition toLowerCase :: "string \<Rightarrow> string" where
  "toLowerCase s = map js_lower s"

fun startsWith :: "string \<Rightarrow> string \<Rightarrow> bool" where
  "startsWith s [] = True"
| "startsWith [] (p # ps) = False"
| "startsWith (c # cs) (p # ps) = (c = p \<and> startsWith cs ps)"

fun str_includes :: "string \<Rightarrow> string \<Rightarrow> bool" where
  "str_includes [] sub = (sub = [])"
| "str_includes (c # cs) sub = (startsWith (c # cs) sub \<or> str_includes cs sub)"

fun indexOf :: "string \<Rightarrow> char \<Rightarrow> nat option" where
  "indexOf [] c = None"
| "indexOf (x # xs) c = (if x = c then Some 0 else map_option Suc (indexOf xs c))"

text \<open>\<open>text.split(/\r?\n/)\<close>: a line feed, with the carriage return before it when there is one.\<close>

fun split_lines :: "string \<Rightarrow> string list" where
  "split_lines [] = [[]]"
| "split_lines (c # cs) =
     (if c = CHR 0x0D \<and> cs \<noteq> [] \<and> hd cs = CHR 0x0A then [] # split_lines (tl cs)
      else if c = CHR 0x0A then [] # split_lines cs
      else (case split_lines cs of [] \<Rightarrow> [[c]] | l # ls \<Rightarrow> (c # l) # ls))"

text \<open>
  \<open>/\.gz$/i.test(s)\<close>: the matcher tries every start position; at a position it needs a dot,
  a character that is g or G, a character that is z or Z, and then the end of the input.
\<close>

fun gz_here :: "string \<Rightarrow> bool" where
  "gz_here [a, b, c] =
     (a = CHR ''.'' \<and> (b = CHR ''g'' \<or> b = CHR ''G'') \<and> (c = CHR ''z'' \<or> c = CHR ''Z''))"
| "gz_here s = False"

fun gz_test :: "string \<Rightarrow> bool" where
  "gz_test [] = False"
| "gz_test (c # cs) = (gz_here (c # cs) \<or> gz_test cs)"


section \<open>The platform: fetch, URL, XMLParser, DecompressionStream\<close>

text \<open>A \<open>Response\<close>: its status, and its body, \<open>None\<close> when \<open>res.body\<close> is null.\<close>

record response =
  res_status :: nat
  res_body :: "string option"

definition res_ok :: "response \<Rightarrow> bool" where
  "res_ok res \<longleftrightarrow> 200 \<le> res_status res \<and> res_status res \<le> 299"

record URL =
  origin :: string
  pathname :: string

type_synonym headers = "(string \<times> string) list"

text \<open>
  What \<open>fast-xml-parser\<close> hands back, as far as the code looks at it: \<open>doc?.urlset?.url\<close> and
  \<open>doc?.sitemapindex?.sitemap\<close> are falsy, one object, or an array of objects; an entry is its
  \<open>loc\<close>, \<open>None\<close> when \<open>loc\<close> is missing or falsy. A root is \<open>None\<close> when \<open>doc.urlset\<close>
  (\<open>doc.sitemapindex\<close>) itself is falsy.
\<close>

type_synonym entry = "string option"

datatype jsnode = Falsy | Single entry | Array "entry list"

record xdoc =
  urlset :: "jsnode option"
  sitemapindex :: "jsnode option"

text \<open>
  The platform functions are parameters: \<open>fetch_of\<close> is \<open>None\<close> where \<open>fetch\<close> rejects (DNS,
  timeout, reset, bad URL), \<open>url_of\<close> is \<open>None\<close> where \<open>new URL\<close> throws, \<open>xml_of\<close> is \<open>None\<close>
  where the parser throws, \<open>gunzip_of\<close> is \<open>None\<close> where the decompression stream errors.
\<close>

record env =
  fetch_of :: "string \<Rightarrow> headers \<Rightarrow> response option"
  url_of :: "string \<Rightarrow> URL option"
  xml_of :: "string \<Rightarrow> xdoc option"
  gunzip_of :: "string \<Rightarrow> string option"

datatype error =
    FetchThrew
  | FailedToFetchSitemap string nat
  | InvalidUrl
  | DecompressFailed
  | XmlParserThrew


section \<open>sitemap.ts\<close>

definition res_text :: "response \<Rightarrow> string" where
  "res_text res = (case res_body res of None \<Rightarrow> [] | Some b \<Rightarrow> b)"

definition sitemap_headers :: "string \<Rightarrow> headers" where
  "sitemap_headers userAgent = [(''User-Agent'', userAgent), (''Accept-Encoding'', ''gzip,deflate'')]"

definition fetchText :: "env \<Rightarrow> string \<Rightarrow> string \<Rightarrow> error + string" where
  "fetchText e userAgent u =
     (case fetch_of e u (sitemap_headers userAgent) of
        None \<Rightarrow> Inl FetchThrew
      | Some res \<Rightarrow>
          if \<not> res_ok res then Inl (FailedToFetchSitemap u (res_status res))
          else (case url_of e u of
                  None \<Rightarrow> Inl InvalidUrl
                | Some parsed \<Rightarrow>
                    if gz_test (pathname parsed)
                    then (case res_body res of
                            None \<Rightarrow> Inr []
                          | Some b \<Rightarrow> (case gunzip_of e b of
                                         None \<Rightarrow> Inl DecompressFailed
                                       | Some t \<Rightarrow> Inr t))
                    else Inr (res_text res)))"

definition as_list :: "jsnode \<Rightarrow> entry list" where
  "as_list n = (case n of Falsy \<Rightarrow> [] | Single x \<Rightarrow> [x] | Array xs \<Rightarrow> xs)"

definition urlset_url :: "xdoc \<Rightarrow> jsnode" where
  "urlset_url doc = (case urlset doc of None \<Rightarrow> Falsy | Some n \<Rightarrow> n)"

definition sitemapindex_sitemap :: "xdoc \<Rightarrow> jsnode" where
  "sitemapindex_sitemap doc = (case sitemapindex doc of None \<Rightarrow> Falsy | Some n \<Rightarrow> n)"

definition UrlsetParser_extractUrls :: "env \<Rightarrow> string \<Rightarrow> error + string list" where
  "UrlsetParser_extractUrls e xml =
     (case xml_of e xml of
        None \<Rightarrow> Inl XmlParserThrew
      | Some doc \<Rightarrow>
          (case urlset_url doc of
             Falsy \<Rightarrow> Inr []
           | urls \<Rightarrow> Inr (map the (filter (\<lambda>l. l \<noteq> None) (as_list urls)))))"

datatype parser = UrlsetParser | IndexParser

definition SitemapParserFactory_from :: "env \<Rightarrow> string \<Rightarrow> error + parser" where
  "SitemapParserFactory_from e xml =
     (let head = toLowerCase (take 200 xml)
      in if str_includes head ''<urlset'' then Inr UrlsetParser
         else if str_includes head ''<sitemapindex'' then Inr IndexParser
         else (case xml_of e xml of
                 None \<Rightarrow> Inl XmlParserThrew
               | Some doc \<Rightarrow>
                   if urlset doc \<noteq> None then Inr UrlsetParser
                   else if sitemapindex doc \<noteq> None then Inr IndexParser
                   else Inr UrlsetParser))"

text \<open>
  \<open>extractUrls\<close> of a parser, and the \<open>for\<close> loop of \<open>IndexParser.extractUrls\<close> over the entries
  still to visit with the \<open>results\<close> so far. The loop calls \<open>extractUrls\<close> of the child's
  parser, so both are one recursive function. Nothing bounds the recursion, so the function is
  partial: \<open>None\<close> is a resolution that never returns, \<open>Some (Inl err)\<close> one that throws.
\<close>

datatype call = Extract parser string | Loop "entry list" "string list"

partial_function (option) extractUrls :: "env \<Rightarrow> string \<Rightarrow> call \<Rightarrow> (error + string list) option"
where [code]:
  "extractUrls e userAgent c =
     (case c of
        Extract p xml \<Rightarrow>
          (case p of
             UrlsetParser \<Rightarrow> Some (UrlsetParser_extractUrls e xml)
           | IndexParser \<Rightarrow>
               (case xml_of e xml of
                  None \<Rightarrow> Some (Inl XmlParserThrew)
                | Some doc \<Rightarrow>
                    (case sitemapindex_sitemap doc of
                       Falsy \<Rightarrow> Some (Inr [])
                     | entries \<Rightarrow> extractUrls e userAgent (Loop (as_list entries) []))))
      | Loop entries results \<Rightarrow>
          (case entries of
             [] \<Rightarrow> Some (Inr results)
           | entry # rest \<Rightarrow>
               (case entry of
                  None \<Rightarrow> extractUrls e userAgent (Loop rest results)
                | Some childLoc \<Rightarrow>
                    (case fetchText e userAgent childLoc of
                       Inl err \<Rightarrow> Some (Inl err)
                     | Inr childXml \<Rightarrow>
                         (case SitemapParserFactory_from e childXml of
                            Inl err \<Rightarrow> Some (Inl err)
                          | Inr childParser \<Rightarrow>
                              Option.bind (extractUrls e userAgent (Extract childParser childXml))
                                (\<lambda>r. case r of
                                       Inl err \<Rightarrow> Some (Inl err)
                                     | Inr childUrls \<Rightarrow>
                                         extractUrls e userAgent
                                           (Loop rest (results @ childUrls))))))))"

definition IndexParser_extractUrls :: "env \<Rightarrow> string \<Rightarrow> string \<Rightarrow> (error + string list) option" where
  "IndexParser_extractUrls e userAgent xml = extractUrls e userAgent (Extract IndexParser xml)"

text \<open>The three steps of the \<open>/preview\<close> and \<open>/crawl\<close> handlers that resolve a sitemap URL.\<close>

definition resolve :: "env \<Rightarrow> string \<Rightarrow> string \<Rightarrow> (error + string list) option" where
  "resolve e userAgent sitemapUrl =
     (case fetchText e userAgent sitemapUrl of
        Inl err \<Rightarrow> Some (Inl err)
      | Inr xml \<Rightarrow>
          (case SitemapParserFactory_from e xml of
             Inl err \<Rightarrow> Some (Inl err)
           | Inr p \<Rightarrow> extractUrls e userAgent (Extract p xml)))"


subsection \<open>Notions the statements about sitemap.ts use\<close>


text \<open>The \<open>loc\<close> values of a list of entries, in order, entries without one left out.\<close>

definition child_locs :: "entry list \<Rightarrow> string list" where
  "child_locs entries = List.map_filter (\<lambda>x. x) entries"

text \<open>
  How a document is read. A root marker is looked for in the first 200 characters of the
  text, in any letter case. The text is read as a urlset when \<open><urlset\<close> occurs there; as an
  index when \<open><urlset\<close> does not and \<open><sitemapindex\<close> does; with neither, the parsed root
  decides, \<open>urlset\<close> before \<open>sitemapindex\<close>, and a document with neither root is read as a
  urlset.
\<close>

definition marker :: "string \<Rightarrow> string \<Rightarrow> bool" where
  "marker m xml \<longleftrightarrow> sublist m (toLowerCase (take 200 xml))"

definition read_as_urlset :: "string \<Rightarrow> xdoc \<Rightarrow> bool" where
  "read_as_urlset xml doc \<longleftrightarrow>
     marker ''<urlset'' xml \<or>
     (\<not> marker ''<sitemapindex'' xml \<and> (urlset doc \<noteq> None \<or> sitemapindex doc = None))"

definition read_as_index :: "string \<Rightarrow> xdoc \<Rightarrow> bool" where
  "read_as_index xml doc \<longleftrightarrow>
     \<not> marker ''<urlset'' xml \<and>
     (marker ''<sitemapindex'' xml \<or> (urlset doc = None \<and> sitemapindex doc \<noteq> None))"

text \<open>The last three characters, lowercased, are \<open>.gz\<close>.\<close>

definition ends_with_gz :: "string \<Rightarrow> bool" where
  "ends_with_gz p \<longleftrightarrow> toLowerCase (drop (length p - 3) p) = ''.gz''"



section \<open>crawler.ts: the robots.txt check\<close>

text \<open>The body of the loop over the trimmed lines, on the pair of \<open>inStar\<close> and \<open>disallows\<close>.\<close>

definition robots_line :: "string \<Rightarrow> bool \<times> string list \<Rightarrow> string \<Rightarrow> bool \<times> string list" where
  "robots_line userAgent st line =
     (case st of (inStar, disallows) \<Rightarrow>
        if line = [] \<or> startsWith line ''#'' then (inStar, disallows)
        else (case indexOf line CHR '':'' of
                None \<Rightarrow> (inStar, disallows)
              | Some idx \<Rightarrow>
                  (let k = toLowerCase (trim (take idx line));
                       v = trim (drop (idx + 1) line)
                   in if k = ''user-agent''
                      then (v = ''*'' \<or> toLowerCase v = toLowerCase userAgent, disallows)
                      else if inStar \<and> k = ''disallow''
                      then (if v \<noteq> [] then (inStar, disallows @ [v]) else (inStar, disallows))
                      else (inStar, disallows))))"

definition robots_disallows :: "string \<Rightarrow> string \<Rightarrow> string list" where
  "robots_disallows userAgent text =
     snd (foldl (robots_line userAgent) (False, []) (map trim (split_lines text)))"

text \<open>
  \<open>allowedByRobots\<close> returns its verdict together with the requests it issued. Everything the
  function does is inside its \<open>try\<close>, so a throwing \<open>new URL\<close> or \<open>fetch\<close> gives \<open>true\<close>.
\<close>

definition allowedByRobots :: "env \<Rightarrow> string \<Rightarrow> string \<Rightarrow> string list \<times> bool" where
  "allowedByRobots e u userAgent =
     (case url_of e u of
        None \<Rightarrow> ([], True)
      | Some parsed \<Rightarrow>
          (let robotsUrl = origin parsed @ ''/robots.txt''
           in case fetch_of e robotsUrl [(''User-Agent'', userAgent)] of
                None \<Rightarrow> ([robotsUrl], True)
              | Some res \<Rightarrow>
                  if \<not> res_ok res then ([robotsUrl], True)
                  else ([robotsUrl],
                        \<not> list_ex (\<lambda>rule. rule \<noteq> ''/'' \<and> startsWith (pathname parsed) rule)
                             (robots_disallows userAgent (res_text res)))))"

subsection \<open>Notions the statements about the robots check use\<close>

text \<open>The directive of a trimmed line: its lowercased key and its value; none for an empty
  line, a comment and a line without a colon.\<close>

definition directive :: "string \<Rightarrow> (string \<times> string) option" where
  "directive line =
     (if line = [] \<or> startsWith line ''#'' then None
      else (case indexOf line CHR '':'' of
              None \<Rightarrow> None
            | Some idx \<Rightarrow> Some (toLowerCase (trim (take idx line)), trim (drop (idx + 1) line))))"

definition is_user_agent :: "string \<Rightarrow> bool" where
  "is_user_agent line \<longleftrightarrow> (\<exists>v. directive line = Some (''user-agent'', v))"

definition applies :: "string \<Rightarrow> string \<Rightarrow> bool" where
  "applies userAgent v \<longleftrightarrow> v = ''*'' \<or> toLowerCase v = toLowerCase userAgent"

text \<open>After the lines \<open>ls\<close> a block for the agent is active: the last \<open>User-agent\<close> line among
  them names the wildcard or the agent.\<close>

definition active :: "string \<Rightarrow> string list \<Rightarrow> bool" where
  "active userAgent ls \<longleftrightarrow>
     (\<exists>pre uaLine mid v.
        ls = pre @ uaLine # mid \<and> directive uaLine = Some (''user-agent'', v) \<and>
        applies userAgent v \<and> (\<forall>m \<in> set mid. \<not> is_user_agent m))"

text \<open>The rule is the non-empty value of a \<open>Disallow\<close> line that stands in an active block.\<close>

definition collected_in :: "string \<Rightarrow> string list \<Rightarrow> string \<Rightarrow> bool" where
  "collected_in userAgent ls rule \<longleftrightarrow>
     (\<exists>pre disLine post.
        ls = pre @ disLine # post \<and> active userAgent pre \<and>
        directive disLine = Some (''disallow'', rule) \<and> rule \<noteq> [])"

definition collected :: "string \<Rightarrow> string \<Rightarrow> string \<Rightarrow> bool" where
  "collected userAgent text rule \<longleftrightarrow> collected_in userAgent (map trim (split_lines text)) rule"


section \<open>crawler.ts: the task of one URL\<close>

record CrawlResult =
  ok :: bool
  status :: nat
  url :: string

text \<open>
  The body of the task \<open>crawlBatch\<close> hands to \<open>pLimit\<close>: the requests it issues and the one
  result it pushes to \<open>out\<close> before its promise fulfils. Every path of the body ends in a push;
  the \<open>catch\<close> takes what the page fetch throws.
\<close>

definition crawl_task :: "env \<Rightarrow> string \<Rightarrow> string \<Rightarrow> string list \<times> CrawlResult" where
  "crawl_task e userAgent u =
     (case allowedByRobots e u userAgent of
        (requests, allowed) \<Rightarrow>
          if \<not> allowed then (requests, \<lparr>ok = True, status = 999, url = u\<rparr>)
          else (case fetch_of e u [(''User-Agent'', userAgent)] of
                  None \<Rightarrow> (requests @ [u], \<lparr>ok = False, status = 0, url = u\<rparr>)
                | Some res \<Rightarrow> (requests @ [u], \<lparr>ok = res_ok res, status = res_status res, url = u\<rparr>)))"


section \<open>crawler.ts: pLimit\<close>

text \<open>
  \<open>pLimit\<close> is an async function over promises, so its model is a transition system over the
  state of the JavaScript job queue. A promise is pending or settled and carries the reactions
  registered on it, in registration order; settling a promise appends one job per reaction to
  the microtask queue; \<open>then\<close> on a settled promise appends the job at once. The promise of the
  \<open>i\<close>-th call of \<open>fn\<close> is promise \<open>i\<close>.
\<close>

datatype settled = Fulfilled | Rejected

text \<open>
  The reactions \<open>pLimit\<close> registers: the callback of \<open>p.finally\<close>, the element of promise \<open>q\<close>
  in the \<open>n\<close>-th \<open>Promise.race\<close>, the element of promise \<open>q\<close> in \<open>Promise.all\<close>.
\<close>

datatype reaction = OnFinally nat | OnRace nat nat | OnAll nat

text \<open>A job runs a reaction with the outcome of its promise, or resumes \<open>pLimit\<close> after its
  \<open>await\<close> with the outcome of the awaited promise.\<close>

datatype job = React reaction settled | Resume settled

text \<open>Where \<open>pLimit\<close> itself is: running its loop, suspended in one of its two \<open>await\<close>s,
  returned, or ended by an exception.\<close>

datatype ctrl = Running | AwaitRace | AwaitAll | Returned | Threw

text \<open>What the synchronous part of a call \<open>fn(item)\<close> does: throw, or return a promise that is
  still pending (\<open>None\<close>) or already settled.\<close>

datatype call_result = Throws | Returns "settled option"

record 'a plimit =
  started :: "'a list"
  promise :: "nat \<Rightarrow> settled option"
  reactions :: "nat \<Rightarrow> reaction list"
  executing :: "nat list"
  jobs :: "job list"
  ctrl :: ctrl
  races :: nat
  race_pending :: bool
  all_waiting :: "nat list"
  all_pending :: bool

definition plimit_init :: "'a plimit" where
  "plimit_init =
     \<lparr>started = [], promise = (\<lambda>p. None), reactions = (\<lambda>p. []), executing = [], jobs = [],
      ctrl = Running, races = 0, race_pending = False, all_waiting = [], all_pending = False\<rparr>"

text \<open>\<open>q.then\<close> with the reaction \<open>mk q\<close> for every \<open>q\<close> of \<open>qs\<close>, as \<open>Promise.race\<close> and
  \<open>Promise.all\<close> do for the members of the set, in its order: a pending promise keeps the
  reaction, a settled one has the job appended at once.\<close>

definition then_jobs :: "(nat \<Rightarrow> reaction) \<Rightarrow> nat list \<Rightarrow> 'a plimit \<Rightarrow> job list" where
  "then_jobs mk qs s =
     concat (map (\<lambda>q. case promise s q of None \<Rightarrow> [] | Some out \<Rightarrow> [React (mk q) out]) qs)"

definition subscribe :: "(nat \<Rightarrow> reaction) \<Rightarrow> nat list \<Rightarrow> 'a plimit \<Rightarrow> 'a plimit" where
  "subscribe mk qs s =
     s\<lparr>reactions := (\<lambda>q. if q \<in> set qs \<and> promise s q = None then reactions s q @ [mk q]
                          else reactions s q),
       jobs := jobs s @ then_jobs mk qs s\<rparr>"

text \<open>
  The limit is a JavaScript number: NaN, an infinity, or a finite number (a real here; the
  finite doubles are among them). \<open>executing.size >= limit\<close> compares a size with it: the
  comparison with NaN is false. \<open>Math.max\<close> gives NaN when an argument is NaN.
\<close>

datatype jsnumber = NaN | MinusInfinity | Finite real | Infinity

fun size_ge :: "nat \<Rightarrow> jsnumber \<Rightarrow> bool" where
  "size_ge n NaN = False"
| "size_ge n MinusInfinity = True"
| "size_ge n (Finite x) = (x \<le> real n)"
| "size_ge n Infinity = False"

fun Math_max :: "jsnumber \<Rightarrow> jsnumber \<Rightarrow> jsnumber" where
  "Math_max NaN y = NaN"
| "Math_max x NaN = NaN"
| "Math_max Infinity y = Infinity"
| "Math_max x Infinity = Infinity"
| "Math_max MinusInfinity y = y"
| "Math_max x MinusInfinity = x"
| "Math_max (Finite x) (Finite y) = Finite (max x y)"

text \<open>
  One turn of the \<open>for\<close> loop, or, after the last item, the step to \<open>await Promise.all\<close>.
  The turn calls \<open>fn\<close>, adds the promise to \<open>executing\<close>, registers the \<open>finally\<close> callback and,
  when \<open>executing.size >= limit\<close>, suspends in \<open>await Promise.race(executing)\<close>.
\<close>

definition advance :: "('a \<Rightarrow> call_result) \<Rightarrow> 'a list \<Rightarrow> jsnumber \<Rightarrow> 'a plimit \<Rightarrow> 'a plimit" where
  "advance fn items limit s =
     (if length (started s) < length items
      then (let item = items ! length (started s); p = length (started s)
            in case fn item of
                 Throws \<Rightarrow> s\<lparr>ctrl := Threw\<rparr>
               | Returns out \<Rightarrow>
                   (let s1 = s\<lparr>started := started s @ [item],
                               promise := (promise s)(p := out),
                               reactions := (reactions s)(p := []),
                               executing := executing s @ [p]\<rparr>;
                        s2 = subscribe OnFinally [p] s1
                    in if size_ge (length (executing s2)) limit
                       then (subscribe (OnRace (Suc (races s2))) (executing s2)
                               (s2\<lparr>races := Suc (races s2), race_pending := True\<rparr>))
                            \<lparr>ctrl := AwaitRace\<rparr>
                       else s2))
      else (let s1 = subscribe OnAll (executing s)
                       (s\<lparr>all_waiting := executing s, all_pending := True\<rparr>)
            in if executing s = []
               then s1\<lparr>all_pending := False, jobs := jobs s1 @ [Resume Fulfilled], ctrl := AwaitAll\<rparr>
               else s1\<lparr>ctrl := AwaitAll\<rparr>))"

text \<open>A pending promise settles: its reactions become jobs, in registration order.\<close>

definition settle :: "nat \<Rightarrow> settled \<Rightarrow> 'a plimit \<Rightarrow> 'a plimit" where
  "settle p out s =
     s\<lparr>promise := (promise s)(p := Some out),
       reactions := (reactions s)(p := []),
       jobs := jobs s @ map (\<lambda>r. React r out) (reactions s p)\<rparr>"

text \<open>
  Running one job. The \<open>finally\<close> callback deletes its promise from \<open>executing\<close>. The first
  element of the awaited race to report settles the race promise with its own outcome, which
  schedules the continuation of the \<open>await\<close>; elements of earlier races do nothing. An element of
  \<open>Promise.all\<close> that fulfilled leaves the elements still waited for (\<open>all_waiting\<close>, the
  elements behind the remaining-elements count) and the last one fulfils the promise; one that
  rejected rejects it. A continuation resumes the loop or returns from \<open>pLimit\<close>, or throws.
\<close>

fun run_job :: "job \<Rightarrow> 'a plimit \<Rightarrow> 'a plimit" where
  "run_job (React (OnFinally p) out) s = s\<lparr>executing := removeAll p (executing s)\<rparr>"
| "run_job (React (OnRace n q) out) s =
     (if n = races s \<and> race_pending s
      then s\<lparr>race_pending := False, jobs := jobs s @ [Resume out]\<rparr>
      else s)"
| "run_job (React (OnAll q) Fulfilled) s =
     (if all_pending s
      then (if removeAll q (all_waiting s) = []
            then s\<lparr>all_waiting := [], all_pending := False, jobs := jobs s @ [Resume Fulfilled]\<rparr>
            else s\<lparr>all_waiting := removeAll q (all_waiting s)\<rparr>)
      else s)"
| "run_job (React (OnAll q) Rejected) s =
     (if all_pending s
      then s\<lparr>all_pending := False, jobs := jobs s @ [Resume Rejected]\<rparr>
      else s)"
| "run_job (Resume Fulfilled) s =
     (if ctrl s = AwaitRace then s\<lparr>ctrl := Running\<rparr>
      else if ctrl s = AwaitAll then s\<lparr>ctrl := Returned\<rparr>
      else s)"
| "run_job (Resume Rejected) s =
     (if ctrl s = AwaitRace \<or> ctrl s = AwaitAll then s\<lparr>ctrl := Threw\<rparr> else s)"

text \<open>
  The events. While \<open>pLimit\<close> runs its loop nothing else happens (run to completion); while it
  is suspended or has ended, the next job of the queue may run and any pending task promise
  may settle, at any moment and in any order.
\<close>

datatype event = Advance | Settle nat settled | RunJob

definition step :: "('a \<Rightarrow> call_result) \<Rightarrow> 'a list \<Rightarrow> jsnumber \<Rightarrow> event \<Rightarrow> 'a plimit \<Rightarrow> 'a plimit option" where
  "step fn items limit ev s =
     (case ev of
        Advance \<Rightarrow> if ctrl s = Running then Some (advance fn items limit s) else None
      | Settle p out \<Rightarrow>
          if ctrl s \<noteq> Running \<and> p < length (started s) \<and> promise s p = None
          then Some (settle p out s) else None
      | RunJob \<Rightarrow>
          (case jobs s of
             [] \<Rightarrow> None
           | j # js \<Rightarrow> if ctrl s \<noteq> Running then Some (run_job j (s\<lparr>jobs := js\<rparr>)) else None))"

fun run_events :: "('a \<Rightarrow> call_result) \<Rightarrow> 'a list \<Rightarrow> jsnumber \<Rightarrow> event list \<Rightarrow> 'a plimit \<Rightarrow> 'a plimit option" where
  "run_events fn items limit [] s = Some s"
| "run_events fn items limit (ev # evs) s =
     (case step fn items limit ev s of
        None \<Rightarrow> None
      | Some s' \<Rightarrow> run_events fn items limit evs s')"

text \<open>The states \<open>pLimit(items, limit, fn)\<close> can be in.\<close>

definition reachable :: "('a \<Rightarrow> call_result) \<Rightarrow> 'a list \<Rightarrow> jsnumber \<Rightarrow> 'a plimit \<Rightarrow> bool" where
  "reachable fn items limit s \<longleftrightarrow> (\<exists>evs. run_events fn items limit evs plimit_init = Some s)"

text \<open>The tasks that are running: the promises \<open>fn\<close> has returned that are still pending.\<close>

definition running :: "'a plimit \<Rightarrow> nat list" where
  "running s = filter (\<lambda>p. promise s p = None) [0 ..< length (started s)]"




subsection \<open>Invariants of the transition system\<close>

text \<open>
  The invariants are stated for a whole number as limit. That is no restriction: with \<open>n\<close>
  items the set holds at most \<open>n\<close> promises, and for the sizes up to \<open>n\<close> the test
  \<open>executing.size >= limit\<close> is the test against the whole number \<open>threshold n limit\<close>.
\<close>

abbreviation (input) whole :: "int \<Rightarrow> jsnumber" where
  "whole t \<equiv> Finite (of_int t)"

fun threshold :: "nat \<Rightarrow> jsnumber \<Rightarrow> int" where
  "threshold n NaN = int n + 1"
| "threshold n MinusInfinity = 0"
| "threshold n (Finite x) = \<lceil>x\<rceil>"
| "threshold n Infinity = int n + 1"

fun about :: "reaction \<Rightarrow> nat" where
  "about (OnFinally p) = p"
| "about (OnRace n q) = q"
| "about (OnAll q) = q"

fun race_no :: "reaction \<Rightarrow> nat" where
  "race_no (OnRace n q) = n"
| "race_no r = 0"

fun is_resume :: "job \<Rightarrow> bool" where
  "is_resume (Resume out) = True"
| "is_resume j = False"

text \<open>The promises, their reactions and the jobs fit together.\<close>

definition inv_wf :: "'a list \<Rightarrow> 'a plimit \<Rightarrow> bool" where
  "inv_wf items s \<longleftrightarrow>
     distinct (executing s) \<and> (\<forall>p \<in> set (executing s). p < length (started s)) \<and>
     started s = take (length (started s)) items \<and> length (started s) \<le> length items \<and>
     (\<forall>p < length (started s). promise s p = None \<longrightarrow>
        p \<in> set (executing s) \<and> (\<exists>rs. reactions s p = OnFinally p # rs)) \<and>
     (\<forall>p \<in> set (executing s). promise s p \<noteq> None \<longrightarrow>
        (\<exists>out. React (OnFinally p) out \<in> set (jobs s))) \<and>
     (\<forall>p r. r \<in> set (reactions s p) \<longrightarrow>
        about r = p \<and> p < length (started s) \<and> promise s p = None \<and> race_no r \<le> races s) \<and>
     (\<forall>r out. React r out \<in> set (jobs s) \<longrightarrow>
        about r < length (started s) \<and> promise s (about r) = Some out \<and> race_no r \<le> races s)"

text \<open>Running the queue from its head, the element of promise \<open>q\<close> in race \<open>n\<close> is reached
  only after the \<open>finally\<close> callback of \<open>q\<close> has taken \<open>q\<close> out of the set \<open>ex\<close>.\<close>

fun finally_first :: "nat \<Rightarrow> nat set \<Rightarrow> job list \<Rightarrow> bool" where
  "finally_first n ex [] = True"
| "finally_first n ex (React (OnFinally p) out # js) = finally_first n (ex - {p}) js"
| "finally_first n ex (React (OnRace m q) out # js) = ((m = n \<longrightarrow> q \<notin> ex) \<and> finally_first n ex js)"
| "finally_first n ex (j # js) = finally_first n ex js"

definition inv_ctrl :: "'a plimit \<Rightarrow> bool" where
  "inv_ctrl s \<longleftrightarrow>
     ((\<exists>out. Resume out \<in> set (jobs s)) \<longrightarrow>
        \<not> race_pending s \<and> \<not> all_pending s \<and> (ctrl s = AwaitRace \<or> ctrl s = AwaitAll)) \<and>
     length (filter is_resume (jobs s)) \<le> 1 \<and>
     (race_pending s \<longrightarrow> ctrl s = AwaitRace) \<and>
     (ctrl s = AwaitRace \<and> \<not> race_pending s \<longrightarrow> (\<exists>out. Resume out \<in> set (jobs s))) \<and>
     (all_pending s \<longrightarrow> ctrl s = AwaitAll)"

definition inv_bound :: "int \<Rightarrow> 'a plimit \<Rightarrow> bool" where
  "inv_bound limit s \<longleftrightarrow>
     length (executing s) \<le> nat (max 1 limit) \<and>
     (ctrl s = Running \<longrightarrow> length (executing s) < nat (max 1 limit)) \<and>
     (ctrl s = AwaitRace \<and> Resume Fulfilled \<in> set (jobs s) \<longrightarrow>
        length (executing s) < nat (max 1 limit)) \<and>
     (race_pending s \<longrightarrow>
        length (executing s) < nat (max 1 limit) \<or>
        (\<forall>q out. React (OnRace (races s) q) out \<in> set (jobs s) \<longrightarrow> q \<in> set (executing s))) \<and>
     (race_pending s \<longrightarrow>
        length (executing s) = nat (max 1 limit) \<or>
        (\<exists>q out. React (OnRace (races s) q) out \<in> set (jobs s))) \<and>
     (race_pending s \<longrightarrow>
        (\<forall>q \<in> set (executing s).
           OnRace (races s) q \<in> set (reactions s q) \<or>
           (\<exists>out. React (OnRace (races s) q) out \<in> set (jobs s)))) \<and>
     (ctrl s = AwaitRace \<longrightarrow> limit \<le> int (length (started s)))"

definition inv_all :: "'a list \<Rightarrow> 'a plimit \<Rightarrow> bool" where
  "inv_all items s \<longleftrightarrow>
     (ctrl s = AwaitAll \<or> ctrl s = Returned \<longrightarrow> length (started s) = length items) \<and>
     (all_pending s \<longrightarrow>
        (\<forall>q < length (started s). promise s q = None \<longrightarrow> q \<in> set (all_waiting s))) \<and>
     (ctrl s = AwaitAll \<and> \<not> all_pending s \<and> Resume Fulfilled \<in> set (jobs s) \<longrightarrow>
        (\<forall>q < length (started s). promise s q \<noteq> None)) \<and>
     (ctrl s = Returned \<longrightarrow> (\<forall>q < length (started s). promise s q \<noteq> None))"

definition inv :: "'a list \<Rightarrow> int \<Rightarrow> 'a plimit \<Rightarrow> bool" where
  "inv items limit s \<longleftrightarrow>
     inv_wf items s \<and> finally_first (races s) (set (executing s)) (jobs s) \<and>
     inv_ctrl s \<and> inv_bound limit s \<and> inv_all items s"

text \<open>While \<open>pLimit\<close> waits for \<open>Promise.all\<close>, something is on its way that will wake it: the
  continuation is in the queue, or every element still waited for has its reaction registered
  or its job queued.\<close>

definition inv_live :: "'a plimit \<Rightarrow> bool" where
  "inv_live s \<longleftrightarrow>
     (ctrl s = AwaitAll \<and> \<not> all_pending s \<longrightarrow> (\<exists>out. Resume out \<in> set (jobs s))) \<and>
     (all_pending s \<longrightarrow> all_waiting s \<noteq> []) \<and>
     (all_pending s \<longrightarrow>
        (\<forall>q \<in> set (all_waiting s).
           OnAll q \<in> set (reactions s q) \<or> (\<exists>out. React (OnAll q) out \<in> set (jobs s))))"

text \<open>What is left to do, for the proof that \<open>pLimit\<close> can always run to its end: the items
  not yet started, and the work of the jobs in the queue (a reaction may schedule a
  continuation).\<close>

fun weight :: "job list \<Rightarrow> nat" where
  "weight [] = 0"
| "weight (React r out # js) = 2 + weight js"
| "weight (Resume out # js) = 1 + weight js"

definition phase :: "'a list \<Rightarrow> 'a plimit \<Rightarrow> nat" where
  "phase items s =
     2 * (length items - length (started s)) +
     (if ctrl s = Running \<or> ctrl s = AwaitRace then 1 else 0)"


section \<open>crawler.ts: crawlBatch\<close>

text \<open>
  The task of \<open>crawlBatch\<close> is an async function that awaits before it does anything else: the
  call returns a pending promise and never throws. Its body catches whatever is thrown, so the
  promise never rejects; it fulfils right after the task has pushed its result to \<open>out\<close>.
  So \<open>crawlBatch\<close> is \<open>pLimit\<close> over the URLs, with the limit \<open>Math.max(1, concurrency)\<close>,
  together with the array \<open>out\<close>, and the order in which the tasks finish is the order of
  their results.
\<close>

definition crawl_fn :: "string \<Rightarrow> call_result" where
  "crawl_fn u = Returns None"

definition crawl_step ::
  "env \<Rightarrow> string list \<Rightarrow> string \<Rightarrow> jsnumber \<Rightarrow> event \<Rightarrow> string plimit \<times> CrawlResult list \<Rightarrow>
   (string plimit \<times> CrawlResult list) option" where
  "crawl_step e urls userAgent concurrency ev st =
     (case st of (s, out) \<Rightarrow>
        (case step crawl_fn urls (Math_max (Finite 1) concurrency) ev s of
           None \<Rightarrow> None
         | Some s' \<Rightarrow>
             (case ev of
                Settle p Fulfilled \<Rightarrow> Some (s', out @ [snd (crawl_task e userAgent (urls ! p))])
              | Settle p Rejected \<Rightarrow> None
              | _ \<Rightarrow> Some (s', out))))"

fun crawl_run ::
  "env \<Rightarrow> string list \<Rightarrow> string \<Rightarrow> jsnumber \<Rightarrow> event list \<Rightarrow> string plimit \<times> CrawlResult list \<Rightarrow>
   (string plimit \<times> CrawlResult list) option" where
  "crawl_run e urls userAgent concurrency [] st = Some st"
| "crawl_run e urls userAgent concurrency (ev # evs) st =
     (case crawl_step e urls userAgent concurrency ev st of
        None \<Rightarrow> None
      | Some st' \<Rightarrow> crawl_run e urls userAgent concurrency evs st')"

text \<open>What \<open>crawlBatch\<close> returns under a schedule of events: \<open>out\<close>, once \<open>pLimit\<close> has returned.
  A schedule that does not lead to the return of \<open>pLimit\<close> gives nothing.\<close>

definition crawlBatch :: "env \<Rightarrow> string list \<Rightarrow> string \<Rightarrow> jsnumber \<Rightarrow> event list \<Rightarrow> CrawlResult list option" where
  "crawlBatch e urls userAgent concurrency schedule =
     (case crawl_run e urls userAgent concurrency schedule (plimit_init, []) of
        None \<Rightarrow> None
      | Some (s, out) \<Rightarrow> if ctrl s = Returned then Some out else None)"

text \<open>The whole number that stands for the limit of \<open>crawlBatch\<close> in the invariants.\<close>

abbreviation (input) crawl_limit :: "string list \<Rightarrow> jsnumber \<Rightarrow> int" where
  "crawl_limit urls concurrency \<equiv> threshold (length urls) (Math_max (Finite 1) concurrency)"

text \<open>No promise has rejected, no rejection is on its way, \<open>pLimit\<close> has not thrown.\<close>

definition unrejected :: "'a plimit \<Rightarrow> bool" where
  "unrejected s \<longleftrightarrow>
     (\<forall>p. promise s p \<noteq> Some Rejected) \<and> Resume Rejected \<notin> set (jobs s) \<and> ctrl s \<noteq> Threw"

text \<open>The tasks a schedule lets finish, in the order in which they do.\<close>

fun finished :: "event list \<Rightarrow> nat list" where
  "finished [] = []"
| "finished (Settle p Fulfilled # evs) = p # finished evs"
| "finished (ev # evs) = finished evs"

text \<open>The results so far are those of the settled tasks, in some order, one each.\<close>

definition results_of :: "env \<Rightarrow> string list \<Rightarrow> string \<Rightarrow> string plimit \<Rightarrow> CrawlResult list \<Rightarrow> bool" where
  "results_of e urls userAgent s out \<longleftrightarrow>
     (\<exists>order. distinct order \<and>
        set order = {p. p < length (started s) \<and> promise s p \<noteq> None} \<and>
        out = map (\<lambda>p. snd (crawl_task e userAgent (urls ! p))) order)"


section \<open>index.ts: the enqueuers\<close>

text \<open>\<open>InlineEnqueuer.enqueueMany\<close> awaits \<open>crawlBatch\<close>, logs the number of results with \<open>ok\<close>
  and returns \<open>urls.length\<close>: the pair of the logged number and the returned one.\<close>

definition InlineEnqueuer_enqueueMany ::
  "env \<Rightarrow> string \<Rightarrow> jsnumber \<Rightarrow> string list \<Rightarrow> event list \<Rightarrow> (nat \<times> nat) option" where
  "InlineEnqueuer_enqueueMany e userAgent concurrency urls schedule =
     (case crawlBatch e urls userAgent concurrency schedule of
        None \<Rightarrow> None
      | Some results \<Rightarrow> Some (length (filter ok results), length urls))"

record message =
  body :: string

datatype queue_error = SendBatchRejected

text \<open>
  The queue is a collaborator with a state of its own: \<open>sendBatch q batch\<close> tells whether the
  promise of \<open>queue.sendBatch(batch)\<close> fulfils and gives the state of the queue afterwards.
  The loop of \<open>QueueEnqueuer.enqueueMany\<close> from index \<open>i\<close>, with the calls of \<open>sendBatch\<close> made
  so far and how each ended. A rejected \<open>sendBatch\<close> throws out of the loop.
\<close>

function send_chunks ::
  "('q \<Rightarrow> message list \<Rightarrow> bool \<times> 'q) \<Rightarrow> string list \<Rightarrow> nat \<Rightarrow> 'q \<Rightarrow> (message list \<times> bool) list \<Rightarrow>
   (queue_error + nat) \<times> 'q \<times> (message list \<times> bool) list" where
  "send_chunks sendBatch urls i q calls =
     (if i < length urls
      then (let chunk = take 1000 (drop i urls);
                batch = map (\<lambda>u. \<lparr>body = u\<rparr>) chunk
            in case sendBatch q batch of
                 (True, q') \<Rightarrow> send_chunks sendBatch urls (i + 1000) q' (calls @ [(batch, True)])
               | (False, q') \<Rightarrow> (Inl SendBatchRejected, q', calls @ [(batch, False)]))
      else (Inr (length urls), q, calls))"
  by pat_completeness auto
termination
  by (relation "measure (\<lambda>(sendBatch, urls, i, q, calls). length urls - i)") auto

definition QueueEnqueuer_enqueueMany ::
  "('q \<Rightarrow> message list \<Rightarrow> bool \<times> 'q) \<Rightarrow> string list \<Rightarrow> 'q \<Rightarrow>
   (queue_error + nat) \<times> 'q \<times> (message list \<times> bool) list" where
  "QueueEnqueuer_enqueueMany sendBatch urls q = send_chunks sendBatch urls 0 q []"

subsection \<open>Notions the statements about the enqueuers use\<close>

text \<open>The URLs cut into \<open>ceil (n / 1000)\<close> batches of 1000, the last one shorter.\<close>

definition chunks_of :: "string list \<Rightarrow> message list list" where
  "chunks_of urls =
     map (\<lambda>k. map (\<lambda>u. \<lparr>body = u\<rparr>) (take 1000 (drop (1000 * k) urls)))
       [0 ..< (length urls + 999) div 1000]"

text \<open>The state of the queue after it accepted the batches one after the other; none if it
  rejects one of them.\<close>

fun accept_all :: "('q \<Rightarrow> message list \<Rightarrow> bool \<times> 'q) \<Rightarrow> 'q \<Rightarrow> message list list \<Rightarrow> 'q option" where
  "accept_all sendBatch q [] = Some q"
| "accept_all sendBatch q (b # bs) =
     (case sendBatch q b of (True, q') \<Rightarrow> accept_all sendBatch q' bs | (False, q') \<Rightarrow> None)"


section \<open>Example sites\<close>

text \<open>
  A stand-in for \<open>new URL\<close> on the URLs of the examples, which are lower-case
  \<open>https://host/path\<close> URLs without port, credentials or dot segments: for these it gives the
  origin and the path that \<open>new URL\<close> gives. A string that does not start with \<open>https://\<close> is
  refused; in the examples that is a string without a scheme, which \<open>new URL\<close> refuses too.
\<close>

definition simple_url :: "string \<Rightarrow> URL option" where
  "simple_url u =
     (if startsWith u ''https://''
      then (let rest = drop 8 u;
                host = takeWhile (\<lambda>c. c \<noteq> CHR ''/'') rest;
                path = takeWhile (\<lambda>c. c \<noteq> CHR ''?'' \<and> c \<noteq> CHR ''#'')
                         (dropWhile (\<lambda>c. c \<noteq> CHR ''/'') rest)
            in Some \<lparr>origin = ''https://'' @ host, pathname = (if path = [] then ''/'' else path)\<rparr>)
      else None)"

text \<open>A stand-in for gzip: a compressed body is its text behind the marker \<open>gz:\<close>.\<close>

definition simple_gunzip :: "string \<Rightarrow> string option" where
  "simple_gunzip b = (if startsWith b ''gz:'' then Some (drop 3 b) else None)"

definition root_xml :: string where
  "root_xml = ''<sitemapindex><sitemap><loc>https://site.example/c.xml</loc></sitemap><sitemap/><sitemap><loc>https://site.example/b.xml.GZ</loc></sitemap></sitemapindex>''"

definition c_xml :: string where
  "c_xml = ''<?xml version=1.0?><sitemapindex><sitemap><loc>https://site.example/a.xml</loc></sitemap><sitemap><loc>https://site.example/a.xml</loc></sitemap></sitemapindex>''"

definition a_xml :: string where
  "a_xml = ''<urlset><url><loc>https://site.example/1</loc></url><url><loc>https://site.example/2</loc></url></urlset>''"

definition b_xml :: string where
  "b_xml = ''<urlset><url><loc>https://site.example/3</loc></url><url><loc>https://site.example/1</loc></url><url><loc>https://site.example/private/x</loc></url></urlset>''"

definition broken_xml :: string where
  "broken_xml = ''<sitemapindex><sitemap><loc>https://site.example/a.xml</loc></sitemap><sitemap><loc>https://site.example/gone.xml</loc></sitemap><sitemap><loc>https://site.example/b.xml.GZ</loc></sitemap></sitemapindex>''"

definition site_robots :: string where
  "site_robots =
     ''# policy'' @ [CHR 0x0D, CHR 0x0A] @
     ''User-agent: OtherBot'' @ [CHR 0x0A] @
     ''Disallow: /1'' @ [CHR 0x0A] @
     ''User-Agent : *'' @ [CHR 0x0A] @
     ''Disallow: /'' @ [CHR 0x0A] @
     ''disallow:  /private '' @ [CHR 0x0A] @
     ''Disallow:'' @ [CHR 0x0A]"

definition site_fetch :: "string \<Rightarrow> headers \<Rightarrow> response option" where
  "site_fetch u h =
     (if u = ''https://site.example/sitemap.xml'' then Some \<lparr>res_status = 200, res_body = Some root_xml\<rparr>
      else if u = ''https://site.example/c.xml'' then Some \<lparr>res_status = 200, res_body = Some c_xml\<rparr>
      else if u = ''https://site.example/a.xml'' then Some \<lparr>res_status = 200, res_body = Some a_xml\<rparr>
      else if u = ''https://site.example/b.xml.GZ'' then Some \<lparr>res_status = 200, res_body = Some (''gz:'' @ b_xml)\<rparr>
      else if u = ''https://site.example/empty.gz'' then Some \<lparr>res_status = 204, res_body = None\<rparr>
      else if u = ''https://site.example/broken.xml'' then Some \<lparr>res_status = 200, res_body = Some broken_xml\<rparr>
      else if u = ''https://site.example/robots.txt'' then Some \<lparr>res_status = 200, res_body = Some site_robots\<rparr>
      else if u = ''https://site.example/1'' then Some \<lparr>res_status = 200, res_body = Some ''one''\<rparr>
      else if u = ''https://site.example/3'' then Some \<lparr>res_status = 500, res_body = Some ''failed''\<rparr>
      else if startsWith u ''https://site.example/'' then Some \<lparr>res_status = 404, res_body = Some ''not found''\<rparr>
      else None)"

definition site_xml :: "string \<Rightarrow> xdoc option" where
  "site_xml x =
     (if x = root_xml
      then Some \<lparr>urlset = None,
                 sitemapindex = Some (Array [Some ''https://site.example/c.xml'', None,
                                            Some ''https://site.example/b.xml.GZ''])\<rparr>
      else if x = c_xml
      then Some \<lparr>urlset = None,
                 sitemapindex = Some (Array [Some ''https://site.example/a.xml'',
                                            Some ''https://site.example/a.xml''])\<rparr>
      else if x = a_xml
      then Some \<lparr>urlset = Some (Array [Some ''https://site.example/1'', Some ''https://site.example/2'']),
                 sitemapindex = None\<rparr>
      else if x = b_xml
      then Some \<lparr>urlset = Some (Array [Some ''https://site.example/3'', Some ''https://site.example/1'',
                                      Some ''https://site.example/private/x'']),
                 sitemapindex = None\<rparr>
      else if x = broken_xml
      then Some \<lparr>urlset = None,
                 sitemapindex = Some (Array [Some ''https://site.example/a.xml'',
                                            Some ''https://site.example/gone.xml'',
                                            Some ''https://site.example/b.xml.GZ''])\<rparr>
      else Some \<lparr>urlset = None, sitemapindex = None\<rparr>)"

definition site_env :: env where
  "site_env = \<lparr>fetch_of = site_fetch, url_of = simple_url, xml_of = site_xml, gunzip_of = simple_gunzip\<rparr>"
















text \<open>A queue that keeps the batches it accepted and accepts no more than \<open>cap\<close> of them.\<close>

definition bounded_queue :: "nat \<Rightarrow> message list list \<Rightarrow> message list \<Rightarrow> bool \<times> message list list" where
  "bounded_queue cap q batch = (if length q < cap then (True, q @ [batch]) else (False, q))"

definition many_urls :: "string list" where
  "many_urls = replicate 2500 ''https://site.example/1''"

text \<open>Four URLs to crawl: one fetched, one kept out by robots.txt, one on a host that is down,
  one answered with 500; and a schedule for them under a limit of 3.\<close>

definition batch_urls :: "string list" where
  "batch_urls = [''https://site.example/1'', ''https://site.example/private/x'',
                 ''https://down.example/p'', ''https://site.example/3'']"

definition batch_schedule :: "event list" where
  "batch_schedule =
     [Advance, Advance, Advance,
      Settle 2 Fulfilled, RunJob, RunJob, RunJob, Advance,
      Settle 3 Fulfilled, Settle 0 Fulfilled, RunJob, RunJob, RunJob, RunJob, RunJob, RunJob, Advance,
      Settle 1 Fulfilled, RunJob, RunJob, RunJob, RunJob, RunJob]"

text \<open>The results of that batch in the order the schedule finishes the tasks.\<close>

definition batch_results :: "CrawlResult list" where
  "batch_results =
     [\<lparr>ok = False, status = 0, url = ''https://down.example/p''\<rparr>,
      \<lparr>ok = False, status = 500, url = ''https://site.example/3''\<rparr>,
      \<lparr>ok = True, status = 200, url = ''https://site.example/1''\<rparr>,
      \<lparr>ok = True, status = 999, url = ''https://site.example/private/x''\<rparr>]"

text \<open>A host whose robots.txt cannot be fetched while its page can.\<close>

definition flaky_env :: env where
  "flaky_env =
     site_env\<lparr>fetch_of :=
       (\<lambda>u h. if u = ''https://flaky.example/p''
               then Some \<lparr>res_status = 200, res_body = Some ''page''\<rparr> else None)\<rparr>"


section \<open>Sitemap resolution\<close>

subsection \<open>Unfolding the recursion\<close>

lemma child_locs_simps [simp]:
  "child_locs [] = []" "child_locs (None # es) = child_locs es"
  "child_locs (Some l # es) = l # child_locs es"
  by (simp_all add: child_locs_def map_filter_simps)

lemma child_locs_append: "child_locs (xs @ ys) = child_locs xs @ child_locs ys"
  by (simp add: child_locs_def map_filter_def)





lemma read_as_either: "read_as_urlset xml doc \<longleftrightarrow> \<not> read_as_index xml doc"
  unfolding read_as_urlset_def read_as_index_def by auto



lemma loop_Nil: "extractUrls e ua (Loop [] results) = Some (Inr results)"
  by (subst extractUrls.simps) simp

lemma extract_Index:
  "xml_of e xml = Some doc \<Longrightarrow>
   extractUrls e ua (Extract IndexParser xml) =
     extractUrls e ua (Loop (as_list (sitemapindex_sitemap doc)) [])"
  by (subst extractUrls.simps) (simp add: as_list_def loop_Nil split: jsnode.splits)

lemma loop_None: "extractUrls e ua (Loop (None # rest) results) = extractUrls e ua (Loop rest results)"
  by (subst extractUrls.simps) simp

lemma loop_Some:
  "extractUrls e ua (Loop (Some l # rest) results) =
     (case resolve e ua l of
        None \<Rightarrow> None
      | Some (Inl err) \<Rightarrow> Some (Inl err)
      | Some (Inr childUrls) \<Rightarrow> extractUrls e ua (Loop rest (results @ childUrls)))"
  by (subst extractUrls.simps)
     (simp add: resolve_def split: sum.splits option.splits Option.bind_splits)


lemma loop_first_failure:
  "list_all2 (\<lambda>l us. resolve e ua l = Some (Inr us)) (child_locs pre) uss \<Longrightarrow>
   resolve e ua l = Some (Inl err) \<Longrightarrow>
   extractUrls e ua (Loop (pre @ Some l # post) results) = Some (Inl err)"
proof (induction pre arbitrary: results uss)
  case Nil
  then show ?case by (simp add: loop_Some)
next
  case (Cons x pre)
  show ?case
  proof (cases x)
    case None
    with Cons show ?thesis by (simp add: loop_None)
  next
    case (Some l')
    with Cons.prems obtain us rest where uss: "uss = us # rest"
      and us: "resolve e ua l' = Some (Inr us)"
      and rest: "list_all2 (\<lambda>l us. resolve e ua l = Some (Inr us)) (child_locs pre) rest"
      by (auto simp: list_all2_Cons1)
    from Cons.IH [OF rest Cons.prems(2), of "results @ us"] show ?thesis
      by (simp add: Some loop_Some us)
  qed
qed







subsection \<open>What a document resolves to\<close>





subsection \<open>The gzip suffix test\<close>

lemma of_char_js_lower:
  "(of_char (js_lower c) :: nat) =
     (if (65 \<le> (of_char c :: nat) \<and> (of_char c :: nat) \<le> 90) \<or>
         (192 \<le> (of_char c :: nat) \<and> (of_char c :: nat) \<le> 222 \<and> (of_char c :: nat) \<noteq> 215)
      then of_char c + 32 else of_char c)"
  by (simp add: js_lower_def Let_def of_char_of)

lemma char_eq_code: "c = d \<longleftrightarrow> (of_char c :: nat) = of_char d"
  by simp

lemma js_lower_g: "js_lower c = CHR ''g'' \<longleftrightarrow> c = CHR ''g'' \<or> c = CHR ''G''"
  unfolding char_eq_code [of _ "CHR ''g''"] char_eq_code [of _ "CHR ''G''"] of_char_js_lower
  by (simp; arith)

lemma js_lower_z: "js_lower c = CHR ''z'' \<longleftrightarrow> c = CHR ''z'' \<or> c = CHR ''Z''"
  unfolding char_eq_code [of _ "CHR ''z''"] char_eq_code [of _ "CHR ''Z''"] of_char_js_lower
  by (simp; arith)

lemma js_lower_dot: "js_lower c = CHR ''.'' \<longleftrightarrow> c = CHR ''.''"
  unfolding char_eq_code [of _ "CHR ''.''"] of_char_js_lower
  by (simp; arith)

lemma gz_here_iff: "gz_here s \<longleftrightarrow> toLowerCase s = ''.gz''"
proof (cases s rule: gz_here.cases)
  case (1 a b c)
  then show ?thesis
    by (simp add: toLowerCase_def js_lower_g js_lower_z js_lower_dot)
qed (auto simp: toLowerCase_def)

lemma gz_test_iff: "gz_test p \<longleftrightarrow> (\<exists>pre suf. p = pre @ suf \<and> toLowerCase suf = ''.gz'')"
proof (induction p)
  case Nil
  then show ?case by (simp add: toLowerCase_def)
next
  case (Cons c cs)
  show ?case
  proof
    assume "gz_test (c # cs)"
    then consider "gz_here (c # cs)" | "gz_test cs" by auto
    then show "\<exists>pre suf. c # cs = pre @ suf \<and> toLowerCase suf = ''.gz''"
    proof cases
      case 1
      then have "c # cs = [] @ (c # cs) \<and> toLowerCase (c # cs) = ''.gz''"
        by (simp add: gz_here_iff)
      then show ?thesis by blast
    next
      case 2
      with Cons obtain pre suf where "cs = pre @ suf" "toLowerCase suf = ''.gz''" by blast
      then have "c # cs = (c # pre) @ suf \<and> toLowerCase suf = ''.gz''" by simp
      then show ?thesis by blast
    qed
  next
    assume "\<exists>pre suf. c # cs = pre @ suf \<and> toLowerCase suf = ''.gz''"
    then obtain pre suf where ps: "c # cs = pre @ suf" "toLowerCase suf = ''.gz''" by blast
    show "gz_test (c # cs)"
    proof (cases pre)
      case Nil
      with ps have "gz_here (c # cs)" by (simp add: gz_here_iff del: gz_here.simps)
      then show ?thesis by simp
    next
      case (Cons x xs)
      with ps have "cs = xs @ suf" by simp
      with ps(2) Cons.IH have "gz_test cs" by blast
      then show ?thesis by simp
    qed
  qed
qed

lemma ends_with_gz_iff: "ends_with_gz p \<longleftrightarrow> (\<exists>pre suf. p = pre @ suf \<and> toLowerCase suf = ''.gz'')"
proof
  assume "ends_with_gz p"
  then have "p = take (length p - 3) p @ drop (length p - 3) p \<and>
      toLowerCase (drop (length p - 3) p) = ''.gz''"
    by (simp add: ends_with_gz_def)
  then show "\<exists>pre suf. p = pre @ suf \<and> toLowerCase suf = ''.gz''" by blast
next
  assume "\<exists>pre suf. p = pre @ suf \<and> toLowerCase suf = ''.gz''"
  then obtain pre suf where ps: "p = pre @ suf" "toLowerCase suf = ''.gz''" by blast
  from ps(2) have "length suf = 3"
    by (metis length_map toLowerCase_def length_Cons list.size(3) numeral_3_eq_3)
  with ps show "ends_with_gz p" by (simp add: ends_with_gz_def)
qed


subsection \<open>An index that lists itself\<close>







subsection \<open>Evaluating the example site\<close>





lemma site_xml_distinct:
  "c_xml \<noteq> root_xml" "a_xml \<noteq> root_xml" "b_xml \<noteq> root_xml" "broken_xml \<noteq> root_xml"
  "a_xml \<noteq> c_xml" "b_xml \<noteq> c_xml" "broken_xml \<noteq> c_xml"
  "b_xml \<noteq> a_xml" "broken_xml \<noteq> a_xml" "broken_xml \<noteq> b_xml"
  by (simp_all add: root_xml_def c_xml_def a_xml_def b_xml_def broken_xml_def)

lemmas site_xml_neq = site_xml_distinct site_xml_distinct [symmetric]



lemma site_resolve_a:
  "resolve site_env ''bot'' ''https://site.example/a.xml'' =
     Some (Inr [''https://site.example/1'', ''https://site.example/2''])"
  by code_simp



lemma site_resolve_gone:
  "resolve site_env ''bot'' ''https://site.example/gone.xml'' =
     Some (Inl (FailedToFetchSitemap ''https://site.example/gone.xml'' 404))"
  by code_simp


subsection \<open>Termination of the resolution (C1)\<close>





subsection \<open>Discovery order (C3)\<close>




subsection \<open>Fetch failures are fatal (C7)\<close>

text \<open>
  C7: \<open>fetchText\<close> fails when \<open>fetch\<close> rejects, and fails with an error carrying the URL and the
  status code when the response is not 2xx. A failure of the top-level fetch is the outcome of
  the whole resolution; and when the resolution of a child of an index fails (its fetch, or
  anything below it), the children before it having resolved, the \<open>extractUrls\<close> of the index
  fails with the same error: nothing catches it per branch and the later children are not
  visited.
\<close>

theorem C7_fetch_failure_is_fatal:
  "(fetch_of e u (sitemap_headers userAgent) = None \<longrightarrow> fetchText e userAgent u = Inl FetchThrew) \<and>
   (\<forall>res. fetch_of e u (sitemap_headers userAgent) = Some res \<and> \<not> res_ok res \<longrightarrow>
      fetchText e userAgent u = Inl (FailedToFetchSitemap u (res_status res))) \<and>
   (fetchText e userAgent u = Inl err \<longrightarrow> resolve e userAgent u = Some (Inl err)) \<and>
   (xml_of e xml = Some doc \<and> as_list (sitemapindex_sitemap doc) = pre @ Some l # post \<and>
    list_all2 (\<lambda>l us. resolve e userAgent l = Some (Inr us)) (child_locs pre) uss \<and>
    resolve e userAgent l = Some (Inl err) \<longrightarrow>
      IndexParser_extractUrls e userAgent xml = Some (Inl err))"
proof (intro conjI impI allI)
  show "fetchText e userAgent u = Inl FetchThrew"
    if "fetch_of e u (sitemap_headers userAgent) = None"
    using that by (simp add: fetchText_def)
  show "fetchText e userAgent u = Inl (FailedToFetchSitemap u (res_status res))"
    if "fetch_of e u (sitemap_headers userAgent) = Some res \<and> \<not> res_ok res" for res
    using that by (simp add: fetchText_def)
  show "resolve e userAgent u = Some (Inl err)" if "fetchText e userAgent u = Inl err"
    using that by (simp add: resolve_def)
  show "IndexParser_extractUrls e userAgent xml = Some (Inl err)"
    if "xml_of e xml = Some doc \<and> as_list (sitemapindex_sitemap doc) = pre @ Some l # post \<and>
        list_all2 (\<lambda>l us. resolve e userAgent l = Some (Inr us)) (child_locs pre) uss \<and>
        resolve e userAgent l = Some (Inl err)"
    using that loop_first_failure [of e userAgent pre uss l err post "[]"]
    by (simp add: IndexParser_extractUrls_def extract_Index)
qed

theorem C7_fetch_failure_is_fatal_witness:
  "fetch_of site_env ''https://site.example/gone.xml'' (sitemap_headers ''bot'') =
     Some \<lparr>res_status = 404, res_body = Some ''not found''\<rparr> \<and>
   \<not> res_ok \<lparr>res_status = 404, res_body = Some ''not found''\<rparr> \<and>
   fetchText site_env ''bot'' ''https://site.example/gone.xml'' =
     Inl (FailedToFetchSitemap ''https://site.example/gone.xml'' 404) \<and>
   resolve site_env ''bot'' ''https://site.example/gone.xml'' =
     Some (Inl (FailedToFetchSitemap ''https://site.example/gone.xml'' 404)) \<and>
   IndexParser_extractUrls site_env ''bot'' broken_xml =
     Some (Inl (FailedToFetchSitemap ''https://site.example/gone.xml'' 404))"
proof -
  let ?doc = "\<lparr>urlset = None,
                 sitemapindex = Some (Array [Some ''https://site.example/a.xml'',
                                            Some ''https://site.example/gone.xml'',
                                            Some ''https://site.example/b.xml.GZ''])\<rparr>"
  let ?res = "\<lparr>res_status = 404, res_body = Some ''not found''\<rparr>"
  have fetch: "fetch_of site_env ''https://site.example/gone.xml'' (sitemap_headers ''bot'') = Some ?res"
    by (simp add: site_env_def site_fetch_def)
  have bad: "\<not> res_ok ?res" by (simp add: res_ok_def)
  have doc: "xml_of site_env broken_xml = Some ?doc"
    by (simp add: site_env_def site_xml_def site_xml_neq)
  have entries: "as_list (sitemapindex_sitemap ?doc) =
      [Some ''https://site.example/a.xml''] @ Some ''https://site.example/gone.xml'' #
      [Some ''https://site.example/b.xml.GZ'']"
    by (simp add: sitemapindex_sitemap_def as_list_def)
  have before: "list_all2 (\<lambda>l us. resolve site_env ''bot'' l = Some (Inr us))
      (child_locs [Some ''https://site.example/a.xml''])
      [[''https://site.example/1'', ''https://site.example/2'']]"
    by (simp add: site_resolve_a)
  show ?thesis
    using C7_fetch_failure_is_fatal [of site_env "''https://site.example/gone.xml''" "''bot''"
        "FailedToFetchSitemap ''https://site.example/gone.xml'' 404" broken_xml ?doc
        "[Some ''https://site.example/a.xml'']" "''https://site.example/gone.xml''"
        "[Some ''https://site.example/b.xml.GZ'']"
        "[[''https://site.example/1'', ''https://site.example/2'']]"]
      fetch bad doc entries before site_resolve_gone
    by simp
qed


subsection \<open>Transparent decompression (C8)\<close>

text \<open>
  C8: for a successful response, \<open>fetchText\<close> decompresses the body exactly when the last three
  characters of the URL's path are \<open>.gz\<close> in any letter case (which is what the regular
  expression tests); for such a URL a response without a body gives the empty string; any other
  URL gives the response text as it is.
\<close>

theorem C8_gzip_by_suffix:
  "fetch_of e u (sitemap_headers userAgent) = Some res \<Longrightarrow> res_ok res \<Longrightarrow>
   url_of e u = Some parsed \<Longrightarrow>
     (gz_test (pathname parsed) \<longleftrightarrow> ends_with_gz (pathname parsed)) \<and>
     (ends_with_gz (pathname parsed) \<and> res_body res = None \<longrightarrow> fetchText e userAgent u = Inr []) \<and>
     (\<forall>b. ends_with_gz (pathname parsed) \<and> res_body res = Some b \<longrightarrow>
        fetchText e userAgent u =
          (case gunzip_of e b of None \<Rightarrow> Inl DecompressFailed | Some t \<Rightarrow> Inr t)) \<and>
     (\<not> ends_with_gz (pathname parsed) \<longrightarrow> fetchText e userAgent u = Inr (res_text res))"
proof -
  assume fetch: "fetch_of e u (sitemap_headers userAgent) = Some res" and good: "res_ok res"
    and parsed: "url_of e u = Some parsed"
  have test: "gz_test (pathname parsed) \<longleftrightarrow> ends_with_gz (pathname parsed)"
    by (simp only: gz_test_iff ends_with_gz_iff)
  show ?thesis
    using fetch good parsed by (simp add: fetchText_def test)
qed

theorem C8_gzip_by_suffix_witness:
  "fetch_of site_env ''https://site.example/b.xml.GZ'' (sitemap_headers ''bot'') =
     Some \<lparr>res_status = 200, res_body = Some (''gz:'' @ b_xml)\<rparr> \<and>
   res_ok \<lparr>res_status = 200, res_body = Some (''gz:'' @ b_xml)\<rparr> \<and>
   url_of site_env ''https://site.example/b.xml.GZ'' =
     Some \<lparr>origin = ''https://site.example'', pathname = ''/b.xml.GZ''\<rparr> \<and>
   ends_with_gz ''/b.xml.GZ'' \<and>
   fetchText site_env ''bot'' ''https://site.example/b.xml.GZ'' = Inr b_xml \<and>
   fetch_of site_env ''https://site.example/empty.gz'' (sitemap_headers ''bot'') =
     Some \<lparr>res_status = 204, res_body = None\<rparr> \<and>
   res_ok \<lparr>res_status = 204, res_body = None\<rparr> \<and>
   url_of site_env ''https://site.example/empty.gz'' =
     Some \<lparr>origin = ''https://site.example'', pathname = ''/empty.gz''\<rparr> \<and>
   ends_with_gz ''/empty.gz'' \<and>
   fetchText site_env ''bot'' ''https://site.example/empty.gz'' = Inr [] \<and>
   fetch_of site_env ''https://site.example/a.xml'' (sitemap_headers ''bot'') =
     Some \<lparr>res_status = 200, res_body = Some a_xml\<rparr> \<and>
   res_ok \<lparr>res_status = 200, res_body = Some a_xml\<rparr> \<and>
   url_of site_env ''https://site.example/a.xml'' =
     Some \<lparr>origin = ''https://site.example'', pathname = ''/a.xml''\<rparr> \<and>
   \<not> ends_with_gz ''/a.xml'' \<and>
   fetchText site_env ''bot'' ''https://site.example/a.xml'' = Inr a_xml"
proof -
  let ?res = "\<lparr>res_status = 200, res_body = Some (''gz:'' @ b_xml)\<rparr>"
  let ?parsed = "\<lparr>origin = ''https://site.example'', pathname = ''/b.xml.GZ''\<rparr>"
  have fetch: "fetch_of site_env ''https://site.example/b.xml.GZ'' (sitemap_headers ''bot'') = Some ?res"
    by (simp add: site_env_def site_fetch_def)
  have good: "res_ok ?res" by (simp add: res_ok_def)
  have parsed: "url_of site_env ''https://site.example/b.xml.GZ'' = Some ?parsed"
    by (simp add: site_env_def simple_url_def)
  have gz: "ends_with_gz ''/b.xml.GZ''" by code_simp
  have unzip: "gunzip_of site_env (''gz:'' @ b_xml) = Some b_xml"
    by (simp add: site_env_def simple_gunzip_def)
  have b: "fetchText site_env ''bot'' ''https://site.example/b.xml.GZ'' = Inr b_xml"
    using C8_gzip_by_suffix [OF fetch good parsed] gz unzip by simp
  let ?none = "\<lparr>res_status = 204, res_body = None\<rparr>"
  let ?empty = "\<lparr>origin = ''https://site.example'', pathname = ''/empty.gz''\<rparr>"
  have fetch0: "fetch_of site_env ''https://site.example/empty.gz'' (sitemap_headers ''bot'') = Some ?none"
    by (simp add: site_env_def site_fetch_def)
  have good0: "res_ok ?none" by (simp add: res_ok_def)
  have parsed0: "url_of site_env ''https://site.example/empty.gz'' = Some ?empty"
    by (simp add: site_env_def simple_url_def)
  have gz0: "ends_with_gz ''/empty.gz''" by code_simp
  have e: "fetchText site_env ''bot'' ''https://site.example/empty.gz'' = Inr []"
    using C8_gzip_by_suffix [OF fetch0 good0 parsed0] gz0 by simp
  let ?plain = "\<lparr>res_status = 200, res_body = Some a_xml\<rparr>"
  let ?a = "\<lparr>origin = ''https://site.example'', pathname = ''/a.xml''\<rparr>"
  have fetch1: "fetch_of site_env ''https://site.example/a.xml'' (sitemap_headers ''bot'') = Some ?plain"
    by (simp add: site_env_def site_fetch_def)
  have good1: "res_ok ?plain" by (simp add: res_ok_def)
  have parsed1: "url_of site_env ''https://site.example/a.xml'' = Some ?a"
    by (simp add: site_env_def simple_url_def)
  have gz1: "\<not> ends_with_gz ''/a.xml''" by code_simp
  have a: "fetchText site_env ''bot'' ''https://site.example/a.xml'' = Inr a_xml"
    using C8_gzip_by_suffix [OF fetch1 good1 parsed1] gz1 by (simp add: res_text_def)
  from fetch good parsed gz b fetch0 good0 parsed0 gz0 e fetch1 good1 parsed1 gz1 a
  show ?thesis by (intro conjI)
qed


section \<open>The robots.txt check (C5)\<close>

lemma robots_line_directive:
  "robots_line ua (inStar, dis) line =
     (case directive line of
        None \<Rightarrow> (inStar, dis)
      | Some (k, v) \<Rightarrow>
          if k = ''user-agent'' then (applies ua v, dis)
          else if inStar \<and> k = ''disallow'' \<and> v \<noteq> [] then (inStar, dis @ [v])
          else (inStar, dis))"
  by (simp add: robots_line_def directive_def applies_def Let_def split: option.splits)

lemma active_snoc_ua:
  assumes "directive x = Some (''user-agent'', v)"
  shows "active ua (ls @ [x]) \<longleftrightarrow> applies ua v"
proof
  assume "active ua (ls @ [x])"
  then obtain pre uaLine mid w where d: "ls @ [x] = pre @ uaLine # mid"
    and u: "directive uaLine = Some (''user-agent'', w)" and a: "applies ua w"
    and m: "\<forall>m \<in> set mid. \<not> is_user_agent m"
    unfolding active_def by blast
  have "mid = []"
  proof (rule ccontr)
    assume "mid \<noteq> []"
    then obtain mid0 y where "mid = mid0 @ [y]" by (metis rev_exhaust)
    with d have "y = x" by (metis append_Cons append_assoc last_snoc)
    with \<open>mid = mid0 @ [y]\<close> m assms show False by (auto simp: is_user_agent_def)
  qed
  with d have "uaLine = x" by simp
  with u a assms show "applies ua v" by simp
next
  assume "applies ua v"
  with assms have "ls @ [x] = ls @ x # [] \<and> directive x = Some (''user-agent'', v) \<and>
      applies ua v \<and> (\<forall>m \<in> set []. \<not> is_user_agent m)" by simp
  then show "active ua (ls @ [x])" unfolding active_def by blast
qed

lemma active_snoc_other:
  assumes "\<not> is_user_agent x"
  shows "active ua (ls @ [x]) \<longleftrightarrow> active ua ls"
proof
  assume "active ua (ls @ [x])"
  then obtain pre uaLine mid w where d: "ls @ [x] = pre @ uaLine # mid"
    and u: "directive uaLine = Some (''user-agent'', w)" and a: "applies ua w"
    and m: "\<forall>m \<in> set mid. \<not> is_user_agent m"
    unfolding active_def by blast
  show "active ua ls"
  proof (cases mid rule: rev_cases)
    case Nil
    with d have "uaLine = x" by simp
    with u assms show ?thesis by (simp add: is_user_agent_def)
  next
    case (snoc mid0 y)
    with d have "ls = pre @ uaLine # mid0" by (metis append_Cons append_assoc butlast_snoc)
    with u a m snoc show ?thesis unfolding active_def by auto
  qed
next
  assume "active ua ls"
  then obtain pre uaLine mid w where d: "ls = pre @ uaLine # mid"
    and u: "directive uaLine = Some (''user-agent'', w)" and a: "applies ua w"
    and m: "\<forall>m \<in> set mid. \<not> is_user_agent m"
    unfolding active_def by blast
  from d m assms have "ls @ [x] = pre @ uaLine # (mid @ [x]) \<and> (\<forall>m \<in> set (mid @ [x]). \<not> is_user_agent m)"
    by simp
  with u a show "active ua (ls @ [x])" unfolding active_def by blast
qed

lemma collected_in_snoc:
  "collected_in ua (ls @ [x]) rule \<longleftrightarrow>
     collected_in ua ls rule \<or> (active ua ls \<and> directive x = Some (''disallow'', rule) \<and> rule \<noteq> [])"
proof
  assume "collected_in ua (ls @ [x]) rule"
  then obtain pre disLine post where d: "ls @ [x] = pre @ disLine # post" and a: "active ua pre"
    and r: "directive disLine = Some (''disallow'', rule)" "rule \<noteq> []"
    unfolding collected_in_def by blast
  show "collected_in ua ls rule \<or> (active ua ls \<and> directive x = Some (''disallow'', rule) \<and> rule \<noteq> [])"
  proof (cases post rule: rev_cases)
    case Nil
    with d have "pre = ls" "disLine = x" by simp_all
    with a r show ?thesis by simp
  next
    case (snoc post0 y)
    with d have "ls = pre @ disLine # post0" by (metis append_Cons append_assoc butlast_snoc)
    with a r show ?thesis unfolding collected_in_def by blast
  qed
next
  assume "collected_in ua ls rule \<or> (active ua ls \<and> directive x = Some (''disallow'', rule) \<and> rule \<noteq> [])"
  then show "collected_in ua (ls @ [x]) rule"
  proof
    assume "collected_in ua ls rule"
    then obtain pre disLine post where "ls = pre @ disLine # post" "active ua pre"
      "directive disLine = Some (''disallow'', rule)" "rule \<noteq> []"
      unfolding collected_in_def by blast
    then have "ls @ [x] = pre @ disLine # (post @ [x]) \<and> active ua pre \<and>
      directive disLine = Some (''disallow'', rule) \<and> rule \<noteq> []" by simp
    then show ?thesis unfolding collected_in_def by blast
  next
    assume "active ua ls \<and> directive x = Some (''disallow'', rule) \<and> rule \<noteq> []"
    then have "ls @ [x] = ls @ x # [] \<and> active ua ls \<and>
      directive x = Some (''disallow'', rule) \<and> rule \<noteq> []" by simp
    then show ?thesis unfolding collected_in_def by blast
  qed
qed

lemma not_active_Nil: "\<not> active ua []"
  by (simp add: active_def)

lemma not_collected_Nil: "\<not> collected_in ua [] rule"
  by (simp add: collected_in_def)

lemma robots_loop:
  "fst (foldl (robots_line ua) (False, []) ls) = active ua ls \<and>
   set (snd (foldl (robots_line ua) (False, []) ls)) = {rule. collected_in ua ls rule}"
proof (induction ls rule: rev_induct)
  case Nil
  show ?case by (simp add: not_active_Nil not_collected_Nil)
next
  case (snoc x ls)
  obtain inStar dis where st: "foldl (robots_line ua) (False, []) ls = (inStar, dis)"
    by (cases "foldl (robots_line ua) (False, []) ls")
  with snoc have inStar: "inStar = active ua ls" and dis: "set dis = {rule. collected_in ua ls rule}"
    by simp_all
  show ?case
  proof (cases "directive x")
    case None
    then have "\<not> is_user_agent x" by (simp add: is_user_agent_def)
    with None inStar dis show ?thesis
      by (simp add: st robots_line_directive active_snoc_other collected_in_snoc)
  next
    case (Some kv)
    obtain k v where kv: "kv = (k, v)" by (cases kv)
    show ?thesis
    proof (cases "k = ''user-agent''")
      case True
      with Some kv have d: "directive x = Some (''user-agent'', v)" by simp
      with inStar dis show ?thesis
        by (simp add: st robots_line_directive active_snoc_ua collected_in_snoc)
    next
      case False
      with Some kv have nua: "\<not> is_user_agent x" by (simp add: is_user_agent_def)
      with Some kv False inStar dis show ?thesis
        by (auto simp add: st robots_line_directive active_snoc_other collected_in_snoc)
    qed
  qed
qed

lemma robots_disallows_collected: "set (robots_disallows ua text) = {rule. collected ua text rule}"
  using robots_loop [of ua "map trim (split_lines text)"]
  by (simp add: robots_disallows_def collected_def)


lemma allowedByRobots_False_iff:
  "snd (allowedByRobots e u ua) = False \<longleftrightarrow>
     (\<exists>parsed res rule.
        url_of e u = Some parsed \<and>
        fetch_of e (origin parsed @ ''/robots.txt'') [(''User-Agent'', ua)] = Some res \<and> res_ok res \<and>
        collected ua (res_text res) rule \<and> rule \<noteq> ''/'' \<and> startsWith (pathname parsed) rule)"
proof (cases "url_of e u")
  case None
  then show ?thesis by (simp add: allowedByRobots_def)
next
  case (Some parsed)
  show ?thesis
  proof (cases "fetch_of e (origin parsed @ ''/robots.txt'') [(''User-Agent'', ua)]")
    case None
    with Some show ?thesis by (simp add: allowedByRobots_def)
  next
    case (Some res)
    with \<open>url_of e u = Some parsed\<close> robots_disallows_collected [of ua "res_text res"]
    show ?thesis
      by (cases "res_ok res") (auto simp add: allowedByRobots_def list_ex_iff Let_def)
  qed
qed

lemma site_robots_rules: "robots_disallows ''bot'' site_robots = [''/'', ''/private'']"
  by code_simp

lemma site_robots_fetch:
  "fetch_of site_env ''https://site.example/robots.txt'' h =
     Some \<lparr>res_status = 200, res_body = Some site_robots\<rparr>"
  by (simp add: site_env_def site_fetch_def)

text \<open>
  C5: \<open>allowedByRobots\<close> answers \<open>false\<close> exactly when robots.txt was fetched with a 2xx
  status and the path of the URL starts with a rule other than \<open>/\<close> that was collected, a
  rule being collected when it is the non-empty value of a \<open>Disallow\<close> line whose closest
  \<open>User-agent\<close> line before it names \<open>*\<close> or the agent (in any letter case); the list the
  loop builds holds exactly these rules. So the answer is \<open>true\<close> when the URL does not parse,
  when the fetch throws, when the status is not 2xx, when no block applies, and when the only
  rules are the bare \<open>/\<close>.
\<close>

theorem C5_robots_verdict:
  "set (robots_disallows userAgent text) = {rule. collected userAgent text rule} \<and>
   (snd (allowedByRobots e u userAgent) = False \<longleftrightarrow>
      (\<exists>parsed res rule.
         url_of e u = Some parsed \<and>
         fetch_of e (origin parsed @ ''/robots.txt'') [(''User-Agent'', userAgent)] = Some res \<and>
         res_ok res \<and> collected userAgent (res_text res) rule \<and> rule \<noteq> ''/'' \<and>
         startsWith (pathname parsed) rule)) \<and>
   (url_of e u = None \<longrightarrow> snd (allowedByRobots e u userAgent)) \<and>
   (\<forall>parsed. url_of e u = Some parsed \<and>
      fetch_of e (origin parsed @ ''/robots.txt'') [(''User-Agent'', userAgent)] = None \<longrightarrow>
      snd (allowedByRobots e u userAgent)) \<and>
   (\<forall>parsed res. url_of e u = Some parsed \<and>
      fetch_of e (origin parsed @ ''/robots.txt'') [(''User-Agent'', userAgent)] = Some res \<and>
      (\<not> res_ok res \<or> (\<forall>rule. collected userAgent (res_text res) rule \<longrightarrow> rule = ''/'')) \<longrightarrow>
      snd (allowedByRobots e u userAgent))"
proof (intro conjI allI impI)
  show "set (robots_disallows userAgent text) = {rule. collected userAgent text rule}"
    by (rule robots_disallows_collected)
  show "snd (allowedByRobots e u userAgent) = False \<longleftrightarrow>
      (\<exists>parsed res rule.
         url_of e u = Some parsed \<and>
         fetch_of e (origin parsed @ ''/robots.txt'') [(''User-Agent'', userAgent)] = Some res \<and>
         res_ok res \<and> collected userAgent (res_text res) rule \<and> rule \<noteq> ''/'' \<and>
         startsWith (pathname parsed) rule)"
    by (rule allowedByRobots_False_iff)
  show "snd (allowedByRobots e u userAgent)" if "url_of e u = None"
    using that allowedByRobots_False_iff [of e u userAgent] by auto
  show "snd (allowedByRobots e u userAgent)"
    if "url_of e u = Some parsed \<and>
      fetch_of e (origin parsed @ ''/robots.txt'') [(''User-Agent'', userAgent)] = None" for parsed
    using that allowedByRobots_False_iff [of e u userAgent] by auto
  show "snd (allowedByRobots e u userAgent)"
    if "url_of e u = Some parsed \<and>
      fetch_of e (origin parsed @ ''/robots.txt'') [(''User-Agent'', userAgent)] = Some res \<and>
      (\<not> res_ok res \<or> (\<forall>rule. collected userAgent (res_text res) rule \<longrightarrow> rule = ''/''))"
    for parsed res
    using that allowedByRobots_False_iff [of e u userAgent] by auto
qed

theorem C5_robots_verdict_witness:
  "robots_disallows ''bot'' site_robots = [''/'', ''/private''] \<and>
   collected ''bot'' site_robots ''/private'' \<and> collected ''bot'' site_robots ''/'' \<and>
   \<not> collected ''bot'' site_robots ''/1'' \<and>
   snd (allowedByRobots site_env ''https://site.example/private/x'' ''bot'') = False \<and>
   snd (allowedByRobots site_env ''https://site.example/1'' ''bot'') \<and>
   url_of site_env ''not a url'' = None \<and>
   snd (allowedByRobots site_env ''not a url'' ''bot'') \<and>
   url_of site_env ''https://down.example/p'' =
     Some \<lparr>origin = ''https://down.example'', pathname = ''/p''\<rparr> \<and>
   fetch_of site_env ''https://down.example/robots.txt'' [(''User-Agent'', ''bot'')] = None \<and>
   snd (allowedByRobots site_env ''https://down.example/p'' ''bot'')"
proof -
  let ?res = "\<lparr>res_status = 200, res_body = Some site_robots\<rparr>"
  let ?x = "\<lparr>origin = ''https://site.example'', pathname = ''/private/x''\<rparr>"
  let ?one = "\<lparr>origin = ''https://site.example'', pathname = ''/1''\<rparr>"
  let ?down = "\<lparr>origin = ''https://down.example'', pathname = ''/p''\<rparr>"
  note rules = site_robots_rules
  have robots_text: "res_text ?res = site_robots" by (simp add: res_text_def)
  have good: "res_ok ?res" by (simp add: res_ok_def)
  have x: "url_of site_env ''https://site.example/private/x'' = Some ?x"
    by (simp add: site_env_def simple_url_def)
  have one: "url_of site_env ''https://site.example/1'' = Some ?one"
    by (simp add: site_env_def simple_url_def)
  have mail: "url_of site_env ''not a url'' = None"
    by (simp add: site_env_def simple_url_def)
  have down: "url_of site_env ''https://down.example/p'' = Some ?down"
    by (simp add: site_env_def simple_url_def)
  have down_fetch: "fetch_of site_env ''https://down.example/robots.txt'' [(''User-Agent'', ''bot'')] = None"
    by (simp add: site_env_def site_fetch_def)
  note site_fetch = site_robots_fetch [of "[(''User-Agent'', ''bot'')]"]
  from C5_robots_verdict [of "''bot''" site_robots site_env "''https://site.example/1''", THEN conjunct1]
  have "{rule. collected ''bot'' site_robots rule} = {''/'', ''/private''}"
    by (simp add: rules)
  then have coll: "collected ''bot'' site_robots rule \<longleftrightarrow> rule = ''/'' \<or> rule = ''/private''" for rule
    by blast
  have "\<exists>parsed res rule.
         url_of site_env ''https://site.example/private/x'' = Some parsed \<and>
         fetch_of site_env (origin parsed @ ''/robots.txt'') [(''User-Agent'', ''bot'')] = Some res \<and>
         res_ok res \<and> collected ''bot'' (res_text res) rule \<and> rule \<noteq> ''/'' \<and>
         startsWith (pathname parsed) rule"
    by (intro exI [of _ ?x] exI [of _ ?res] exI [of _ "''/private''"])
      (simp add: x site_fetch good robots_text coll)
  with C5_robots_verdict [of "''bot''" site_robots site_env "''https://site.example/private/x''",
      THEN conjunct2, THEN conjunct1]
  have "snd (allowedByRobots site_env ''https://site.example/private/x'' ''bot'') = False"
    by (rule iffD2)
  moreover have "\<not> (\<exists>parsed res rule.
         url_of site_env ''https://site.example/1'' = Some parsed \<and>
         fetch_of site_env (origin parsed @ ''/robots.txt'') [(''User-Agent'', ''bot'')] = Some res \<and>
         res_ok res \<and> collected ''bot'' (res_text res) rule \<and> rule \<noteq> ''/'' \<and>
         startsWith (pathname parsed) rule)"
    by (auto simp add: one site_fetch robots_text coll)
  with C5_robots_verdict [of "''bot''" site_robots site_env "''https://site.example/1''",
      THEN conjunct2, THEN conjunct1]
  have "snd (allowedByRobots site_env ''https://site.example/1'' ''bot'')"
    by blast
  moreover have "snd (allowedByRobots site_env ''not a url'' ''bot'')"
    using C5_robots_verdict [of "''bot''" site_robots site_env "''not a url''",
        THEN conjunct2, THEN conjunct2, THEN conjunct1] mail
    by blast
  moreover have "snd (allowedByRobots site_env ''https://down.example/p'' ''bot'')"
    using C5_robots_verdict [of "''bot''" site_robots site_env "''https://down.example/p''",
        THEN conjunct2, THEN conjunct2, THEN conjunct2, THEN conjunct1] down down_fetch
    by simp
  ultimately show ?thesis
    using rules coll mail down down_fetch by simp
qed


section \<open>The transition system of pLimit keeps its invariants\<close>

lemma size_ge_whole [simp]: "size_ge n (whole t) \<longleftrightarrow> t \<le> int n"
proof -
  have "real_of_int t \<le> real n \<longleftrightarrow> real_of_int t \<le> real_of_int (int n)" by simp
  also have "\<dots> \<longleftrightarrow> t \<le> int n" by (rule of_int_le_iff)
  finally show ?thesis by simp
qed

lemma started_settle [simp]: "started (settle p out s) = started s"
  and executing_settle [simp]: "executing (settle p out s) = executing s"
  and ctrl_settle [simp]: "ctrl (settle p out s) = ctrl s"
  and races_settle [simp]: "races (settle p out s) = races s"
  and race_pending_settle [simp]: "race_pending (settle p out s) = race_pending s"
  and all_pending_settle [simp]: "all_pending (settle p out s) = all_pending s"
  and all_waiting_settle [simp]: "all_waiting (settle p out s) = all_waiting s"
  and promise_settle [simp]: "promise (settle p out s) = (promise s)(p := Some out)"
  and reactions_settle [simp]: "reactions (settle p out s) = (reactions s)(p := [])"
  and jobs_settle [simp]: "jobs (settle p out s) = jobs s @ map (\<lambda>r. React r out) (reactions s p)"
  by (simp_all add: settle_def)

lemma finally_first_append:
  "finally_first n ex (js @ js') \<longleftrightarrow>
     finally_first n ex js \<and> finally_first n (ex - {p. \<exists>out. React (OnFinally p) out \<in> set js}) js'"
proof (induction n ex js rule: finally_first.induct)
  case (2 n ex p out js)
  have "ex - {p} - {p'. \<exists>out. React (OnFinally p') out \<in> set js} =
        ex - {p'. \<exists>outa. React (OnFinally p') outa \<in> set (React (OnFinally p) out # js)}"
    by auto
  with 2 show ?case by simp
qed simp_all

lemma finally_first_absent:
  "\<forall>j \<in> set js. \<forall>r out. j = React r out \<longrightarrow> (\<forall>q. r = OnRace n q \<longrightarrow> q \<notin> ex) \<Longrightarrow> finally_first n ex js"
  by (induction n ex js rule: finally_first.induct) auto

lemma finally_first_mono:
  "finally_first n ex js \<Longrightarrow> ex' \<subseteq> ex \<Longrightarrow> finally_first n ex' js"
proof (induction n ex js arbitrary: ex' rule: finally_first.induct)
  case (2 n ex p out js)
  then show ?case by (simp add: Diff_mono)
qed auto

lemma resume_mem_append_React [simp]:
  "Resume out \<in> set (js @ map (\<lambda>r. React r o') rs) \<longleftrightarrow> Resume out \<in> set js"
  by auto

lemma filter_resume_React [simp]: "filter is_resume (map (\<lambda>r. React r out) rs) = []"
  by (induction rs) simp_all

lemma inv_wfI:
  assumes "distinct (executing s)"
    and "\<And>p. p \<in> set (executing s) \<Longrightarrow> p < length (started s)"
    and "started s = take (length (started s)) items"
    and "length (started s) \<le> length items"
    and "\<And>p. p < length (started s) \<Longrightarrow> promise s p = None \<Longrightarrow>
           p \<in> set (executing s) \<and> (\<exists>rs. reactions s p = OnFinally p # rs)"
    and "\<And>p. p \<in> set (executing s) \<Longrightarrow> promise s p \<noteq> None \<Longrightarrow>
           \<exists>out. React (OnFinally p) out \<in> set (jobs s)"
    and "\<And>p r. r \<in> set (reactions s p) \<Longrightarrow>
           about r = p \<and> p < length (started s) \<and> promise s p = None \<and> race_no r \<le> races s"
    and "\<And>r out. React r out \<in> set (jobs s) \<Longrightarrow>
           about r < length (started s) \<and> promise s (about r) = Some out \<and> race_no r \<le> races s"
  shows "inv_wf items s"
proof -
  have c2: "\<forall>p \<in> set (executing s). p < length (started s)"
    using assms(2) by blast
  have c5: "\<forall>p < length (started s). promise s p = None \<longrightarrow>
        p \<in> set (executing s) \<and> (\<exists>rs. reactions s p = OnFinally p # rs)"
    using assms(5) by blast
  have c6: "\<forall>p \<in> set (executing s). promise s p \<noteq> None \<longrightarrow>
        (\<exists>out. React (OnFinally p) out \<in> set (jobs s))"
    using assms(6) by blast
  have c7: "\<forall>p r. r \<in> set (reactions s p) \<longrightarrow>
        about r = p \<and> p < length (started s) \<and> promise s p = None \<and> race_no r \<le> races s"
    using assms(7) by blast
  have c8: "\<forall>r out. React r out \<in> set (jobs s) \<longrightarrow>
        about r < length (started s) \<and> promise s (about r) = Some out \<and> race_no r \<le> races s"
    using assms(8) by blast
  show ?thesis
    unfolding inv_wf_def using assms(1) c2 assms(3,4) c5 c6 c7 c8 by (intro conjI)
qed

lemma wf_distinct: "inv_wf items s \<Longrightarrow> distinct (executing s)"
  and wf_lt: "inv_wf items s \<Longrightarrow> p \<in> set (executing s) \<Longrightarrow> p < length (started s)"
  and wf_started: "inv_wf items s \<Longrightarrow> started s = take (length (started s)) items"
  and wf_le: "inv_wf items s \<Longrightarrow> length (started s) \<le> length items"
  and wf_pending: "inv_wf items s \<Longrightarrow> p < length (started s) \<Longrightarrow> promise s p = None \<Longrightarrow>
           p \<in> set (executing s) \<and> (\<exists>rs. reactions s p = OnFinally p # rs)"
  and wf_settled: "inv_wf items s \<Longrightarrow> p \<in> set (executing s) \<Longrightarrow> promise s p \<noteq> None \<Longrightarrow>
           \<exists>out. React (OnFinally p) out \<in> set (jobs s)"
  and wf_reaction: "inv_wf items s \<Longrightarrow> r \<in> set (reactions s p) \<Longrightarrow>
           about r = p \<and> p < length (started s) \<and> promise s p = None \<and> race_no r \<le> races s"
  and wf_job: "inv_wf items s \<Longrightarrow> React r out \<in> set (jobs s) \<Longrightarrow>
           about r < length (started s) \<and> promise s (about r) = Some out \<and> race_no r \<le> races s"
  unfolding inv_wf_def by simp_all


lemma inv_boundI:
  assumes "length (executing s) \<le> nat (max 1 limit)"
    and "ctrl s = Running \<Longrightarrow> length (executing s) < nat (max 1 limit)"
    and "ctrl s = AwaitRace \<Longrightarrow> Resume Fulfilled \<in> set (jobs s) \<Longrightarrow>
           length (executing s) < nat (max 1 limit)"
    and "\<And>q out. race_pending s \<Longrightarrow> \<not> length (executing s) < nat (max 1 limit) \<Longrightarrow>
           React (OnRace (races s) q) out \<in> set (jobs s) \<Longrightarrow> q \<in> set (executing s)"
    and "race_pending s \<Longrightarrow> length (executing s) \<noteq> nat (max 1 limit) \<Longrightarrow>
           \<exists>q out. React (OnRace (races s) q) out \<in> set (jobs s)"
    and "\<And>q. race_pending s \<Longrightarrow> q \<in> set (executing s) \<Longrightarrow>
           OnRace (races s) q \<notin> set (reactions s q) \<Longrightarrow>
           \<exists>out. React (OnRace (races s) q) out \<in> set (jobs s)"
    and "ctrl s = AwaitRace \<Longrightarrow> limit \<le> int (length (started s))"
  shows "inv_bound limit s"
proof -
  have c4: "race_pending s \<longrightarrow>
        length (executing s) < nat (max 1 limit) \<or>
        (\<forall>q out. React (OnRace (races s) q) out \<in> set (jobs s) \<longrightarrow> q \<in> set (executing s))"
    using assms(4) by blast
  have c5: "race_pending s \<longrightarrow>
        length (executing s) = nat (max 1 limit) \<or>
        (\<exists>q out. React (OnRace (races s) q) out \<in> set (jobs s))"
    using assms(5) by blast
  have c6: "race_pending s \<longrightarrow>
        (\<forall>q \<in> set (executing s).
           OnRace (races s) q \<in> set (reactions s q) \<or>
           (\<exists>out. React (OnRace (races s) q) out \<in> set (jobs s)))"
    using assms(6) by blast
  show ?thesis
    unfolding inv_bound_def using assms(1,2,3,7) c4 c5 c6 by simp
qed


lemma inv_allI:
  assumes "ctrl s = AwaitAll \<or> ctrl s = Returned \<Longrightarrow> length (started s) = length items"
    and "\<And>q. all_pending s \<Longrightarrow> q < length (started s) \<Longrightarrow> promise s q = None \<Longrightarrow>
           q \<in> set (all_waiting s)"
    and "\<And>q. ctrl s = AwaitAll \<Longrightarrow> \<not> all_pending s \<Longrightarrow> Resume Fulfilled \<in> set (jobs s) \<Longrightarrow>
           q < length (started s) \<Longrightarrow> promise s q \<noteq> None"
    and "\<And>q. ctrl s = Returned \<Longrightarrow> q < length (started s) \<Longrightarrow> promise s q \<noteq> None"
  shows "inv_all items s"
proof -
  have c2: "all_pending s \<longrightarrow>
        (\<forall>q < length (started s). promise s q = None \<longrightarrow> q \<in> set (all_waiting s))"
    using assms(2) by blast
  have c3: "ctrl s = AwaitAll \<and> \<not> all_pending s \<and> Resume Fulfilled \<in> set (jobs s) \<longrightarrow>
        (\<forall>q < length (started s). promise s q \<noteq> None)"
    using assms(3) by blast
  have c4: "ctrl s = Returned \<longrightarrow> (\<forall>q < length (started s). promise s q \<noteq> None)"
    using assms(4) by blast
  show ?thesis
    unfolding inv_all_def using assms(1) c2 c3 c4 by (intro conjI impI) blast+
qed



lemma inv_bound_unfold:
  "inv_bound limit s \<Longrightarrow>
     length (executing s) \<le> nat (max 1 limit) \<and>
     (ctrl s = Running \<longrightarrow> length (executing s) < nat (max 1 limit)) \<and>
     (ctrl s = AwaitRace \<and> Resume Fulfilled \<in> set (jobs s) \<longrightarrow>
        length (executing s) < nat (max 1 limit)) \<and>
     (race_pending s \<longrightarrow>
        length (executing s) < nat (max 1 limit) \<or>
        (\<forall>q out. React (OnRace (races s) q) out \<in> set (jobs s) \<longrightarrow> q \<in> set (executing s))) \<and>
     (race_pending s \<longrightarrow>
        length (executing s) = nat (max 1 limit) \<or>
        (\<exists>q out. React (OnRace (races s) q) out \<in> set (jobs s))) \<and>
     (race_pending s \<longrightarrow>
        (\<forall>q \<in> set (executing s).
           OnRace (races s) q \<in> set (reactions s q) \<or>
           (\<exists>out. React (OnRace (races s) q) out \<in> set (jobs s)))) \<and>
     (ctrl s = AwaitRace \<longrightarrow> limit \<le> int (length (started s)))"
  unfolding inv_bound_def .

lemmas inv_boundD =
  inv_bound_unfold [THEN conjunct1]
  inv_bound_unfold [THEN conjunct2, THEN conjunct1]
  inv_bound_unfold [THEN conjunct2, THEN conjunct2, THEN conjunct1]
  inv_bound_unfold [THEN conjunct2, THEN conjunct2, THEN conjunct2, THEN conjunct1]
  inv_bound_unfold [THEN conjunct2, THEN conjunct2, THEN conjunct2, THEN conjunct2, THEN conjunct1]
  inv_bound_unfold [THEN conjunct2, THEN conjunct2, THEN conjunct2, THEN conjunct2, THEN conjunct2,
    THEN conjunct1]
  inv_bound_unfold [THEN conjunct2, THEN conjunct2, THEN conjunct2, THEN conjunct2, THEN conjunct2,
    THEN conjunct2]

lemma inv_all_unfold:
  "inv_all items s \<Longrightarrow>
     (ctrl s = AwaitAll \<or> ctrl s = Returned \<longrightarrow> length (started s) = length items) \<and>
     (all_pending s \<longrightarrow>
        (\<forall>q < length (started s). promise s q = None \<longrightarrow> q \<in> set (all_waiting s))) \<and>
     (ctrl s = AwaitAll \<and> \<not> all_pending s \<and> Resume Fulfilled \<in> set (jobs s) \<longrightarrow>
        (\<forall>q < length (started s). promise s q \<noteq> None)) \<and>
     (ctrl s = Returned \<longrightarrow> (\<forall>q < length (started s). promise s q \<noteq> None))"
  unfolding inv_all_def .

lemmas inv_allD =
  inv_all_unfold [THEN conjunct1]
  inv_all_unfold [THEN conjunct2, THEN conjunct1]
  inv_all_unfold [THEN conjunct2, THEN conjunct2, THEN conjunct1]
  inv_all_unfold [THEN conjunct2, THEN conjunct2, THEN conjunct2]

lemma inv_ctrl_unfold:
  "inv_ctrl s \<Longrightarrow>
     ((\<exists>out. Resume out \<in> set (jobs s)) \<longrightarrow>
        \<not> race_pending s \<and> \<not> all_pending s \<and> (ctrl s = AwaitRace \<or> ctrl s = AwaitAll)) \<and>
     length (filter is_resume (jobs s)) \<le> 1 \<and>
     (race_pending s \<longrightarrow> ctrl s = AwaitRace) \<and>
     (ctrl s = AwaitRace \<and> \<not> race_pending s \<longrightarrow> (\<exists>out. Resume out \<in> set (jobs s))) \<and>
     (all_pending s \<longrightarrow> ctrl s = AwaitAll)"
  unfolding inv_ctrl_def .

lemmas inv_ctrlD =
  inv_ctrl_unfold [THEN conjunct1]
  inv_ctrl_unfold [THEN conjunct2, THEN conjunct1]
  inv_ctrl_unfold [THEN conjunct2, THEN conjunct2, THEN conjunct1]
  inv_ctrl_unfold [THEN conjunct2, THEN conjunct2, THEN conjunct2, THEN conjunct1]
  inv_ctrl_unfold [THEN conjunct2, THEN conjunct2, THEN conjunct2, THEN conjunct2]

lemma b_le: "inv_bound limit s \<Longrightarrow> length (executing s) \<le> nat (max 1 limit)"
  by (rule inv_boundD(1))

lemma b_running: "inv_bound limit s \<Longrightarrow> ctrl s = Running \<Longrightarrow> length (executing s) < nat (max 1 limit)"
  using inv_boundD(2) by blast

lemma b_resume: "inv_bound limit s \<Longrightarrow> ctrl s = AwaitRace \<Longrightarrow> Resume Fulfilled \<in> set (jobs s) \<Longrightarrow>
           length (executing s) < nat (max 1 limit)"
  using inv_boundD(3) by blast

lemma b_limit: "inv_bound limit s \<Longrightarrow> ctrl s = AwaitRace \<Longrightarrow> limit \<le> int (length (started s))"
  using inv_boundD(7) by blast

lemma b_member: "inv_bound limit s \<Longrightarrow> race_pending s \<Longrightarrow> \<not> length (executing s) < nat (max 1 limit) \<Longrightarrow>
           React (OnRace (races s) q) out \<in> set (jobs s) \<Longrightarrow> q \<in> set (executing s)"
  using inv_boundD(4) [of limit s] by blast

lemma b_wake: "inv_bound limit s \<Longrightarrow> race_pending s \<Longrightarrow> length (executing s) \<noteq> nat (max 1 limit) \<Longrightarrow>
           \<exists>q out. React (OnRace (races s) q) out \<in> set (jobs s)"
  using inv_boundD(5) [of limit s] by blast

lemma b_subscribed: "inv_bound limit s \<Longrightarrow> race_pending s \<Longrightarrow> q \<in> set (executing s) \<Longrightarrow>
           OnRace (races s) q \<notin> set (reactions s q) \<Longrightarrow>
           \<exists>out. React (OnRace (races s) q) out \<in> set (jobs s)"
  using inv_boundD(6) [of limit s] by blast

lemma a_started: "inv_all items s \<Longrightarrow> ctrl s = AwaitAll \<or> ctrl s = Returned \<Longrightarrow>
           length (started s) = length items"
  using inv_allD(1) by blast

lemma a_waiting: "inv_all items s \<Longrightarrow> all_pending s \<Longrightarrow> q < length (started s) \<Longrightarrow>
           promise s q = None \<Longrightarrow> q \<in> set (all_waiting s)"
  using inv_allD(2) [of items s] by blast

lemma a_resume: "inv_all items s \<Longrightarrow> ctrl s = AwaitAll \<Longrightarrow> \<not> all_pending s \<Longrightarrow>
           Resume Fulfilled \<in> set (jobs s) \<Longrightarrow> q < length (started s) \<Longrightarrow> promise s q \<noteq> None"
  using inv_allD(3) [of items s] by blast

lemma a_returned: "inv_all items s \<Longrightarrow> ctrl s = Returned \<Longrightarrow> q < length (started s) \<Longrightarrow>
           promise s q \<noteq> None"
  using inv_allD(4) [of items s] by blast

lemma c_resume: "inv_ctrl s \<Longrightarrow> Resume out \<in> set (jobs s) \<Longrightarrow>
        \<not> race_pending s \<and> \<not> all_pending s \<and> (ctrl s = AwaitRace \<or> ctrl s = AwaitAll)"
  using inv_ctrlD(1) [of s] by blast

lemma c_one: "inv_ctrl s \<Longrightarrow> length (filter is_resume (jobs s)) \<le> 1"
  by (rule inv_ctrlD(2))

lemma c_race: "inv_ctrl s \<Longrightarrow> race_pending s \<Longrightarrow> ctrl s = AwaitRace"
  using inv_ctrlD(3) by blast

lemma c_woken: "inv_ctrl s \<Longrightarrow> ctrl s = AwaitRace \<Longrightarrow> \<not> race_pending s \<Longrightarrow> \<exists>out. Resume out \<in> set (jobs s)"
  using inv_ctrlD(4) [of s] by blast

lemma c_all: "inv_ctrl s \<Longrightarrow> all_pending s \<Longrightarrow> ctrl s = AwaitAll"
  using inv_ctrlD(5) by blast

lemma inv_ctrlI:
  assumes "\<And>out. Resume out \<in> set (jobs s) \<Longrightarrow>
        \<not> race_pending s \<and> \<not> all_pending s \<and> (ctrl s = AwaitRace \<or> ctrl s = AwaitAll)"
    and "length (filter is_resume (jobs s)) \<le> 1"
    and "race_pending s \<Longrightarrow> ctrl s = AwaitRace"
    and "ctrl s = AwaitRace \<Longrightarrow> \<not> race_pending s \<Longrightarrow> \<exists>out. Resume out \<in> set (jobs s)"
    and "all_pending s \<Longrightarrow> ctrl s = AwaitAll"
  shows "inv_ctrl s"
proof -
  have c1: "(\<exists>out. Resume out \<in> set (jobs s)) \<longrightarrow>
        \<not> race_pending s \<and> \<not> all_pending s \<and> (ctrl s = AwaitRace \<or> ctrl s = AwaitAll)"
    using assms(1) by blast
  have c3: "race_pending s \<longrightarrow> ctrl s = AwaitRace" using assms(3) by blast
  have c4: "ctrl s = AwaitRace \<and> \<not> race_pending s \<longrightarrow> (\<exists>out. Resume out \<in> set (jobs s))"
    using assms(4) by blast
  have c5: "all_pending s \<longrightarrow> ctrl s = AwaitAll" using assms(5) by blast
  show ?thesis unfolding inv_ctrl_def using c1 assms(2) c3 c4 c5 by (intro conjI)
qed

lemma inv_wf_settle:
  assumes wf: "inv_wf items s" and p: "p < length (started s)" "promise s p = None"
  shows "inv_wf items (settle p out s)"
proof (rule inv_wfI)
  show "distinct (executing (settle p out s))" using wf_distinct [OF wf] by simp
  show "q \<in> set (executing (settle p out s)) \<Longrightarrow> q < length (started (settle p out s))" for q
    using wf_lt [OF wf, of q] by simp
  show "started (settle p out s) = take (length (started (settle p out s))) items"
    using wf_started [OF wf] by simp
  show "length (started (settle p out s)) \<le> length items" using wf_le [OF wf] by simp
  show "q \<in> set (executing (settle p out s)) \<and> (\<exists>rs. reactions (settle p out s) q = OnFinally q # rs)"
    if "q < length (started (settle p out s))" "promise (settle p out s) q = None" for q
    using that wf_pending [OF wf, of q] by (cases "q = p") simp_all
  show "\<exists>out'. React (OnFinally q) out' \<in> set (jobs (settle p out s))"
    if "q \<in> set (executing (settle p out s))" "promise (settle p out s) q \<noteq> None" for q
  proof (cases "q = p")
    case True
    from wf_pending [OF wf p] obtain rs where "reactions s p = OnFinally p # rs" by blast
    with True show ?thesis by auto
  next
    case False
    with that wf_settled [OF wf, of q] show ?thesis by auto
  qed
  show "about r = q \<and> q < length (started (settle p out s)) \<and> promise (settle p out s) q = None \<and>
      race_no r \<le> races (settle p out s)"
    if "r \<in> set (reactions (settle p out s) q)" for q r
    using that wf_reaction [OF wf, of r q] by (cases "q = p") simp_all
  show "about r < length (started (settle p out s)) \<and>
      promise (settle p out s) (about r) = Some out' \<and> race_no r \<le> races (settle p out s)"
    if "React r out' \<in> set (jobs (settle p out s))" for r out'
  proof -
    from that consider "React r out' \<in> set (jobs s)" | "r \<in> set (reactions s p)" "out' = out"
      by auto
    then show ?thesis
    proof cases
      case 1
      from wf_job [OF wf 1] p show ?thesis by auto
    next
      case 2
      from wf_reaction [OF wf 2(1)] 2(2) show ?thesis by simp
    qed
  qed
qed

lemma finally_first_settle:
  assumes wf: "inv_wf items s" and p: "p < length (started s)" "promise s p = None"
    and ff: "finally_first (races s) (set (executing s)) (jobs s)"
  shows "finally_first (races (settle p out s)) (set (executing (settle p out s))) (jobs (settle p out s))"
proof -
  from wf_pending [OF wf p] obtain rs where rs: "reactions s p = OnFinally p # rs" by blast
  have "q = p" if "OnRace n q \<in> set rs" for n q
    using wf_reaction [OF wf, of "OnRace n q" p] that rs by simp
  then have "finally_first (races s) (ex - {p}) (map (\<lambda>r. React r out) rs)" for ex
    by (intro finally_first_absent) auto
  with ff rs show ?thesis
    by (simp add: finally_first_append)
qed

lemma inv_ctrl_settle:
  assumes c: "inv_ctrl s"
  shows "inv_ctrl (settle p out s)"
proof (rule inv_ctrlI)
  have resume: "Resume out' \<in> set (jobs (settle p out s)) \<longleftrightarrow> Resume out' \<in> set (jobs s)" for out'
    by auto
  show "\<not> race_pending (settle p out s) \<and> \<not> all_pending (settle p out s) \<and>
      (ctrl (settle p out s) = AwaitRace \<or> ctrl (settle p out s) = AwaitAll)"
    if "Resume out' \<in> set (jobs (settle p out s))" for out'
    using c_resume [OF c, of out'] that resume by simp
  show "length (filter is_resume (jobs (settle p out s))) \<le> 1"
    using c_one [OF c] by simp
  show "ctrl (settle p out s) = AwaitRace" if "race_pending (settle p out s)"
    using c_race [OF c] that by simp
  show "\<exists>out'. Resume out' \<in> set (jobs (settle p out s))"
    if "ctrl (settle p out s) = AwaitRace" "\<not> race_pending (settle p out s)"
  proof -
    from c_woken [OF c] that obtain out' where "Resume out' \<in> set (jobs s)" by auto
    then have "Resume out' \<in> set (jobs (settle p out s))" by (simp add: resume)
    then show ?thesis ..
  qed
  show "ctrl (settle p out s) = AwaitAll" if "all_pending (settle p out s)"
    using c_all [OF c] that by simp
qed

lemma inv_bound_settle:
  assumes wf: "inv_wf items s" and p: "p < length (started s)" "promise s p = None"
    and b: "inv_bound limit s"
  shows "inv_bound limit (settle p out s)"
proof (rule inv_boundI)
  from wf_pending [OF wf p] have pex: "p \<in> set (executing s)" by blast
  have newjob: "q = p" if "OnRace n q \<in> set (reactions s p)" for n q
    using wf_reaction [OF wf that] by simp
  show "length (executing (settle p out s)) \<le> nat (max 1 limit)"
    using b_le [OF b] by simp
  show "length (executing (settle p out s)) < nat (max 1 limit)" if "ctrl (settle p out s) = Running"
    using b_running [OF b] that by simp
  show "length (executing (settle p out s)) < nat (max 1 limit)"
    if "ctrl (settle p out s) = AwaitRace" "Resume Fulfilled \<in> set (jobs (settle p out s))"
    using b_resume [OF b] that by auto
  show "q \<in> set (executing (settle p out s))"
    if "race_pending (settle p out s)" "\<not> length (executing (settle p out s)) < nat (max 1 limit)"
      "React (OnRace (races (settle p out s)) q) out' \<in> set (jobs (settle p out s))" for q out'
  proof -
    from that(3) consider "React (OnRace (races s) q) out' \<in> set (jobs s)"
      | "OnRace (races s) q \<in> set (reactions s p)" by auto
    then show ?thesis
    proof cases
      case 1
      with b_member [OF b, of q out'] that show ?thesis by simp
    next
      case 2
      from newjob [OF 2] pex show ?thesis by simp
    qed
  qed
  show "\<exists>q out'. React (OnRace (races (settle p out s)) q) out' \<in> set (jobs (settle p out s))"
    if "race_pending (settle p out s)" "length (executing (settle p out s)) \<noteq> nat (max 1 limit)"
  proof -
    from b_wake [OF b] that obtain q out' where "React (OnRace (races s) q) out' \<in> set (jobs s)"
      by auto
    then have "React (OnRace (races (settle p out s)) q) out' \<in> set (jobs (settle p out s))" by simp
    then show ?thesis by blast
  qed
  show "\<exists>out'. React (OnRace (races (settle p out s)) q) out' \<in> set (jobs (settle p out s))"
    if "race_pending (settle p out s)" "q \<in> set (executing (settle p out s))"
      "OnRace (races (settle p out s)) q \<notin> set (reactions (settle p out s) q)" for q
  proof (cases "OnRace (races s) q \<in> set (reactions s q)")
    case True
    with that(3) have "q = p" by (cases "q = p") simp_all
    with True have "React (OnRace (races (settle p out s)) q) out \<in> set (jobs (settle p out s))"
      by simp
    then show ?thesis by blast
  next
    case False
    with b_subscribed [OF b, of q] that obtain out' where "React (OnRace (races s) q) out' \<in> set (jobs s)"
      by auto
    then have "React (OnRace (races (settle p out s)) q) out' \<in> set (jobs (settle p out s))" by simp
    then show ?thesis by blast
  qed
  show "limit \<le> int (length (started (settle p out s)))" if "ctrl (settle p out s) = AwaitRace"
    using b_limit [OF b] that by simp
qed

lemma inv_all_settle:
  assumes a: "inv_all items s"
  shows "inv_all items (settle p out s)"
proof (rule inv_allI)
  show "length (started (settle p out s)) = length items"
    if "ctrl (settle p out s) = AwaitAll \<or> ctrl (settle p out s) = Returned"
    using a_started [OF a] that by simp
  show "q \<in> set (all_waiting (settle p out s))"
    if "all_pending (settle p out s)" "q < length (started (settle p out s))"
      "promise (settle p out s) q = None" for q
    using a_waiting [OF a, of q] that by (cases "q = p") simp_all
  show "promise (settle p out s) q \<noteq> None"
    if "ctrl (settle p out s) = AwaitAll" "\<not> all_pending (settle p out s)"
      "Resume Fulfilled \<in> set (jobs (settle p out s))" "q < length (started (settle p out s))" for q
    using a_resume [OF a, of q] that by (cases "q = p") auto
  show "promise (settle p out s) q \<noteq> None"
    if "ctrl (settle p out s) = Returned" "q < length (started (settle p out s))" for q
    using a_returned [OF a, of q] that by (cases "q = p") simp_all
qed

lemma inv_settle:
  assumes "inv items limit s" "p < length (started s)" "promise s p = None"
  shows "inv items limit (settle p out s)"
proof -
  from assms(1) have wf: "inv_wf items s"
    and ff: "finally_first (races s) (set (executing s)) (jobs s)"
    and c: "inv_ctrl s" and b: "inv_bound limit s" and a: "inv_all items s"
    by (simp_all add: inv_def)
  show ?thesis
    unfolding inv_def
    using inv_wf_settle [OF wf assms(2,3)] finally_first_settle [OF wf assms(2,3) ff]
      inv_ctrl_settle [OF c] inv_bound_settle [OF wf assms(2,3) b] inv_all_settle [OF a]
    by (intro conjI)
qed

lemma inv_parts:
  assumes "inv items limit s"
  shows "inv_wf items s" and "finally_first (races s) (set (executing s)) (jobs s)"
    and "inv_ctrl s" and "inv_bound limit s" and "inv_all items s"
  using assms by (simp_all add: inv_def)

lemma invI:
  "inv_wf items s \<Longrightarrow> finally_first (races s) (set (executing s)) (jobs s) \<Longrightarrow>
   inv_ctrl s \<Longrightarrow> inv_bound limit s \<Longrightarrow> inv_all items s \<Longrightarrow> inv items limit s"
  by (simp add: inv_def)

lemma filter_is_resume_empty: "filter is_resume js = [] \<longleftrightarrow> (\<forall>out. Resume out \<notin> set js)"
proof (induction js)
  case Nil
  show ?case by simp
next
  case (Cons j js)
  then show ?case by (cases j) auto
qed

text \<open>The job at the head is the callback of \<open>p.finally\<close>.\<close>

lemma inv_job_finally:
  assumes i: "inv items limit s" and j: "jobs s = React (OnFinally p) out # js"
    and f: "started s' = started s" "promise s' = promise s" "reactions s' = reactions s"
      "executing s' = removeAll p (executing s)" "jobs s' = js" "ctrl s' = ctrl s"
      "races s' = races s" "race_pending s' = race_pending s"
      "all_waiting s' = all_waiting s" "all_pending s' = all_pending s"
  shows "inv items limit s'"
proof (rule invI)
  note wf = inv_parts(1) [OF i] and ff = inv_parts(2) [OF i] and c = inv_parts(3) [OF i]
    and b = inv_parts(4) [OF i] and a = inv_parts(5) [OF i]
  have settled: "promise s p = Some out"
    using wf_job [OF wf, of "OnFinally p" out] j by simp
  have mem: "x \<in> set (jobs s) \<longleftrightarrow> x = React (OnFinally p) out \<or> x \<in> set js" for x
    using j by auto
  show "inv_wf items s'"
  proof (rule inv_wfI)
    show "distinct (executing s')" using wf_distinct [OF wf] by (simp add: f distinct_removeAll)
    show "q \<in> set (executing s') \<Longrightarrow> q < length (started s')" for q
      using wf_lt [OF wf, of q] by (simp add: f)
    show "started s' = take (length (started s')) items" using wf_started [OF wf] by (simp add: f)
    show "length (started s') \<le> length items" using wf_le [OF wf] by (simp add: f)
    show "q \<in> set (executing s') \<and> (\<exists>rs. reactions s' q = OnFinally q # rs)"
      if "q < length (started s')" "promise s' q = None" for q
      using that wf_pending [OF wf, of q] settled by (auto simp add: f)
    show "\<exists>out'. React (OnFinally q) out' \<in> set (jobs s')"
      if "q \<in> set (executing s')" "promise s' q \<noteq> None" for q
    proof -
      from that have "q \<noteq> p" "q \<in> set (executing s)" "promise s q \<noteq> None" by (simp_all add: f)
      with wf_settled [OF wf, of q] obtain out' where "React (OnFinally q) out' \<in> set (jobs s)"
        by blast
      with \<open>q \<noteq> p\<close> have "React (OnFinally q) out' \<in> set (jobs s')" by (simp add: mem f)
      then show ?thesis ..
    qed
    show "about r = q \<and> q < length (started s') \<and> promise s' q = None \<and> race_no r \<le> races s'"
      if "r \<in> set (reactions s' q)" for q r
      using that wf_reaction [OF wf, of r q] by (simp add: f)
    show "about r < length (started s') \<and> promise s' (about r) = Some out' \<and> race_no r \<le> races s'"
      if "React r out' \<in> set (jobs s')" for r out'
      using that wf_job [OF wf, of r out'] by (simp add: f mem)
  qed
  show "finally_first (races s') (set (executing s')) (jobs s')"
    using ff by (simp add: f j)
  show "inv_ctrl s'"
  proof (rule inv_ctrlI)
    show "\<not> race_pending s' \<and> \<not> all_pending s' \<and> (ctrl s' = AwaitRace \<or> ctrl s' = AwaitAll)"
      if "Resume out' \<in> set (jobs s')" for out'
      using c_resume [OF c, of out'] that by (simp add: f mem)
    show "length (filter is_resume (jobs s')) \<le> 1" using c_one [OF c] by (simp add: f j)
    show "ctrl s' = AwaitRace" if "race_pending s'" using c_race [OF c] that by (simp add: f)
    show "\<exists>out'. Resume out' \<in> set (jobs s')" if "ctrl s' = AwaitRace" "\<not> race_pending s'"
      using c_woken [OF c] that by (auto simp add: f mem)
    show "ctrl s' = AwaitAll" if "all_pending s'" using c_all [OF c] that by (simp add: f)
  qed
  show "inv_bound limit s'"
  proof (rule inv_boundI)
    have len: "length (executing s') \<le> length (executing s)"
      by (simp add: f length_removeAll_less_eq)
    have shrink: "length (executing s') < length (executing s)" if "p \<in> set (executing s)"
      using that by (simp add: f length_removeAll_less)
    have same: "executing s' = executing s" if "p \<notin> set (executing s)"
      using that by (simp add: f)
    show "length (executing s') \<le> nat (max 1 limit)" using b_le [OF b] len by simp
    show "length (executing s') < nat (max 1 limit)" if "ctrl s' = Running"
      using b_running [OF b] len that by (simp add: f(6))
    show "length (executing s') < nat (max 1 limit)"
      if "ctrl s' = AwaitRace" "Resume Fulfilled \<in> set (jobs s')"
      using b_resume [OF b] len that by (simp add: f(5,6) mem)
    show "q \<in> set (executing s')"
      if "race_pending s'" "\<not> length (executing s') < nat (max 1 limit)"
        "React (OnRace (races s') q) out' \<in> set (jobs s')" for q out'
    proof (cases "p \<in> set (executing s)")
      case True
      from shrink [OF True] b_le [OF b] that(2) show ?thesis by simp
    next
      case False
      with b_member [OF b, of q out'] that same show ?thesis by (simp add: f mem)
    qed
    show "\<exists>q out'. React (OnRace (races s') q) out' \<in> set (jobs s')"
      if "race_pending s'" "length (executing s') \<noteq> nat (max 1 limit)"
    proof (cases "p \<in> set (executing s)")
      case True
      have "OnRace (races s) p \<notin> set (reactions s p)"
        using wf_reaction [OF wf, of "OnRace (races s) p" p] settled by auto
      with b_subscribed [OF b, of p] that True obtain out'
        where "React (OnRace (races s) p) out' \<in> set (jobs s)" by (auto simp add: f)
      then have "React (OnRace (races s') p) out' \<in> set (jobs s')" by (simp add: f mem)
      then show ?thesis by blast
    next
      case False
      with b_wake [OF b] that same obtain q out' where "React (OnRace (races s) q) out' \<in> set (jobs s)"
        by (auto simp add: f)
      then have "React (OnRace (races s') q) out' \<in> set (jobs s')" by (simp add: f mem)
      then show ?thesis by blast
    qed
    show "\<exists>out'. React (OnRace (races s') q) out' \<in> set (jobs s')"
      if "race_pending s'" "q \<in> set (executing s')" "OnRace (races s') q \<notin> set (reactions s' q)" for q
    proof -
      from b_subscribed [OF b, of q] that obtain out'
        where "React (OnRace (races s) q) out' \<in> set (jobs s)" by (auto simp add: f)
      then have "React (OnRace (races s') q) out' \<in> set (jobs s')" by (simp add: f mem)
      then show ?thesis by blast
    qed
    show "limit \<le> int (length (started s'))" if "ctrl s' = AwaitRace"
      using b_limit [OF b] that by (simp add: f)
  qed
  show "inv_all items s'"
  proof (rule inv_allI)
    show "length (started s') = length items" if "ctrl s' = AwaitAll \<or> ctrl s' = Returned"
      using a_started [OF a] that by (simp add: f)
    show "q \<in> set (all_waiting s')"
      if "all_pending s'" "q < length (started s')" "promise s' q = None" for q
      using a_waiting [OF a, of q] that by (simp add: f)
    show "promise s' q \<noteq> None"
      if "ctrl s' = AwaitAll" "\<not> all_pending s'" "Resume Fulfilled \<in> set (jobs s')"
        "q < length (started s')" for q
      using a_resume [OF a, of q] that by (simp add: f mem)
    show "promise s' q \<noteq> None" if "ctrl s' = Returned" "q < length (started s')" for q
      using a_returned [OF a, of q] that by (simp add: f)
  qed
qed


text \<open>The job at the head is a reaction without effect on \<open>executing\<close>, the race and the
  continuation; it may take settled promises out of \<open>all_waiting\<close>.\<close>

lemma inv_job_skip:
  assumes i: "inv items limit s" and j: "jobs s = React r out # js"
    and r: "\<And>p. r \<noteq> OnFinally p" "\<And>q. race_pending s \<Longrightarrow> r \<noteq> OnRace (races s) q"
    and w: "\<And>q. all_pending s \<Longrightarrow> q \<in> set (all_waiting s) \<Longrightarrow> promise s q = None \<Longrightarrow>
              q \<in> set (all_waiting s')"
    and f: "started s' = started s" "promise s' = promise s" "reactions s' = reactions s"
      "executing s' = executing s" "jobs s' = js" "ctrl s' = ctrl s"
      "races s' = races s" "race_pending s' = race_pending s" "all_pending s' = all_pending s"
  shows "inv items limit s'"
proof (rule invI)
  note wf = inv_parts(1) [OF i] and ff = inv_parts(2) [OF i] and c = inv_parts(3) [OF i]
    and b = inv_parts(4) [OF i] and a = inv_parts(5) [OF i]
  have mem: "x \<in> set (jobs s) \<longleftrightarrow> x = React r out \<or> x \<in> set js" for x
    using j by auto
  show "inv_wf items s'"
  proof (rule inv_wfI)
    show "distinct (executing s')" using wf_distinct [OF wf] by (simp add: f)
    show "q \<in> set (executing s') \<Longrightarrow> q < length (started s')" for q
      using wf_lt [OF wf, of q] by (simp add: f)
    show "started s' = take (length (started s')) items" using wf_started [OF wf] by (simp add: f)
    show "length (started s') \<le> length items" using wf_le [OF wf] by (simp add: f)
    show "q \<in> set (executing s') \<and> (\<exists>rs. reactions s' q = OnFinally q # rs)"
      if "q < length (started s')" "promise s' q = None" for q
      using that wf_pending [OF wf, of q] by (simp add: f)
    show "\<exists>out'. React (OnFinally q) out' \<in> set (jobs s')"
      if "q \<in> set (executing s')" "promise s' q \<noteq> None" for q
    proof -
      from wf_settled [OF wf, of q] that obtain out' where "React (OnFinally q) out' \<in> set (jobs s)"
        by (auto simp add: f)
      with r(1) have "React (OnFinally q) out' \<in> set (jobs s')" by (auto simp add: mem f)
      then show ?thesis ..
    qed
    show "about r' = q \<and> q < length (started s') \<and> promise s' q = None \<and> race_no r' \<le> races s'"
      if "r' \<in> set (reactions s' q)" for q r'
      using that wf_reaction [OF wf, of r' q] by (simp add: f)
    show "about r' < length (started s') \<and> promise s' (about r') = Some out' \<and> race_no r' \<le> races s'"
      if "React r' out' \<in> set (jobs s')" for r' out'
      using that wf_job [OF wf, of r' out'] by (simp add: f mem)
  qed
  show "finally_first (races s') (set (executing s')) (jobs s')"
    using ff r(1) by (cases r) (auto simp add: f j)
  show "inv_ctrl s'"
  proof (rule inv_ctrlI)
    show "\<not> race_pending s' \<and> \<not> all_pending s' \<and> (ctrl s' = AwaitRace \<or> ctrl s' = AwaitAll)"
      if "Resume out' \<in> set (jobs s')" for out'
      using c_resume [OF c, of out'] that by (simp add: f mem)
    show "length (filter is_resume (jobs s')) \<le> 1" using c_one [OF c] by (simp add: f j)
    show "ctrl s' = AwaitRace" if "race_pending s'" using c_race [OF c] that by (simp add: f)
    show "\<exists>out'. Resume out' \<in> set (jobs s')" if "ctrl s' = AwaitRace" "\<not> race_pending s'"
      using c_woken [OF c] that by (auto simp add: f mem)
    show "ctrl s' = AwaitAll" if "all_pending s'" using c_all [OF c] that by (simp add: f)
  qed
  show "inv_bound limit s'"
  proof (rule inv_boundI)
    show "length (executing s') \<le> nat (max 1 limit)" using b_le [OF b] by (simp add: f)
    show "length (executing s') < nat (max 1 limit)" if "ctrl s' = Running"
      using b_running [OF b] that by (simp add: f)
    show "length (executing s') < nat (max 1 limit)"
      if "ctrl s' = AwaitRace" "Resume Fulfilled \<in> set (jobs s')"
      using b_resume [OF b] that by (simp add: f mem)
    show "q \<in> set (executing s')"
      if "race_pending s'" "\<not> length (executing s') < nat (max 1 limit)"
        "React (OnRace (races s') q) out' \<in> set (jobs s')" for q out'
      using b_member [OF b, of q out'] that by (simp add: f mem)
    show "\<exists>q out'. React (OnRace (races s') q) out' \<in> set (jobs s')"
      if "race_pending s'" "length (executing s') \<noteq> nat (max 1 limit)"
    proof -
      from b_wake [OF b] that obtain q out' where "React (OnRace (races s) q) out' \<in> set (jobs s)"
        by (auto simp add: f)
      with r(2) that(1) have "React (OnRace (races s') q) out' \<in> set (jobs s')"
        by (auto simp add: f mem)
      then show ?thesis by blast
    qed
    show "\<exists>out'. React (OnRace (races s') q) out' \<in> set (jobs s')"
      if "race_pending s'" "q \<in> set (executing s')" "OnRace (races s') q \<notin> set (reactions s' q)" for q
    proof -
      from b_subscribed [OF b, of q] that obtain out'
        where "React (OnRace (races s) q) out' \<in> set (jobs s)" by (auto simp add: f)
      with r(2) that(1) have "React (OnRace (races s') q) out' \<in> set (jobs s')"
        by (auto simp add: f mem)
      then show ?thesis by blast
    qed
    show "limit \<le> int (length (started s'))" if "ctrl s' = AwaitRace"
      using b_limit [OF b] that by (simp add: f)
  qed
  show "inv_all items s'"
  proof (rule inv_allI)
    show "length (started s') = length items" if "ctrl s' = AwaitAll \<or> ctrl s' = Returned"
      using a_started [OF a] that by (simp add: f)
    show "q \<in> set (all_waiting s')"
      if "all_pending s'" "q < length (started s')" "promise s' q = None" for q
      using a_waiting [OF a, of q] w [of q] that by (simp add: f)
    show "promise s' q \<noteq> None"
      if "ctrl s' = AwaitAll" "\<not> all_pending s'" "Resume Fulfilled \<in> set (jobs s')"
        "q < length (started s')" for q
      using a_resume [OF a, of q] that by (simp add: f mem)
    show "promise s' q \<noteq> None" if "ctrl s' = Returned" "q < length (started s')" for q
      using a_returned [OF a, of q] that by (simp add: f)
  qed
qed

text \<open>The job at the head settles the awaited promise: the continuation is scheduled.\<close>

lemma inv_job_resolve:
  assumes i: "inv items limit s" and j: "jobs s = React r out # js"
    and r: "\<And>p. r \<noteq> OnFinally p"
    and awaited: "race_pending s \<or> all_pending s"
    and race: "ctrl s = AwaitRace \<Longrightarrow> out' = Fulfilled \<Longrightarrow> length (executing s) < nat (max 1 limit)"
    and all: "\<And>q. ctrl s = AwaitAll \<Longrightarrow> out' = Fulfilled \<Longrightarrow> q < length (started s) \<Longrightarrow>
                promise s q \<noteq> None"
    and f: "started s' = started s" "promise s' = promise s" "reactions s' = reactions s"
      "executing s' = executing s" "jobs s' = js @ [Resume out']" "ctrl s' = ctrl s"
      "races s' = races s" "race_pending s' = False" "all_pending s' = False"
  shows "inv items limit s'"
proof (rule invI)
  note wf = inv_parts(1) [OF i] and ff = inv_parts(2) [OF i] and c = inv_parts(3) [OF i]
    and b = inv_parts(4) [OF i] and a = inv_parts(5) [OF i]
  have mem: "x \<in> set (jobs s) \<longleftrightarrow> x = React r out \<or> x \<in> set js" for x
    using j by auto
  have no_resume: "Resume o' \<notin> set (jobs s)" for o'
    using c_resume [OF c, of o'] awaited by blast
  then have no_resume_js: "Resume o' \<notin> set js" for o'
    by (simp add: mem)
  have awaiting: "ctrl s = AwaitRace \<or> ctrl s = AwaitAll"
    using awaited c_race [OF c] c_all [OF c] by blast
  show "inv_wf items s'"
  proof (rule inv_wfI)
    show "distinct (executing s')" using wf_distinct [OF wf] by (simp add: f)
    show "q \<in> set (executing s') \<Longrightarrow> q < length (started s')" for q
      using wf_lt [OF wf, of q] by (simp add: f)
    show "started s' = take (length (started s')) items" using wf_started [OF wf] by (simp add: f)
    show "length (started s') \<le> length items" using wf_le [OF wf] by (simp add: f)
    show "q \<in> set (executing s') \<and> (\<exists>rs. reactions s' q = OnFinally q # rs)"
      if "q < length (started s')" "promise s' q = None" for q
      using that wf_pending [OF wf, of q] by (simp add: f)
    show "\<exists>o'. React (OnFinally q) o' \<in> set (jobs s')"
      if "q \<in> set (executing s')" "promise s' q \<noteq> None" for q
    proof -
      from wf_settled [OF wf, of q] that obtain o' where "React (OnFinally q) o' \<in> set (jobs s)"
        by (auto simp add: f)
      with r have "React (OnFinally q) o' \<in> set (jobs s')" by (auto simp add: mem f)
      then show ?thesis ..
    qed
    show "about r' = q \<and> q < length (started s') \<and> promise s' q = None \<and> race_no r' \<le> races s'"
      if "r' \<in> set (reactions s' q)" for q r'
      using that wf_reaction [OF wf, of r' q] by (simp add: f)
    show "about r' < length (started s') \<and> promise s' (about r') = Some o' \<and> race_no r' \<le> races s'"
      if "React r' o' \<in> set (jobs s')" for r' o'
      using that wf_job [OF wf, of r' o'] by (simp add: f mem)
  qed
  show "finally_first (races s') (set (executing s')) (jobs s')"
    using ff r by (cases r) (auto simp add: f j finally_first_append)
  show "inv_ctrl s'"
  proof (rule inv_ctrlI)
    show "\<not> race_pending s' \<and> \<not> all_pending s' \<and> (ctrl s' = AwaitRace \<or> ctrl s' = AwaitAll)"
      if "Resume o' \<in> set (jobs s')" for o'
      using awaiting by (simp add: f)
    have "filter is_resume js = []"
      using no_resume_js by (simp add: filter_is_resume_empty)
    then show "length (filter is_resume (jobs s')) \<le> 1" by (simp add: f)
    show "ctrl s' = AwaitRace" if "race_pending s'" using that by (simp add: f)
    show "\<exists>o'. Resume o' \<in> set (jobs s')" if "ctrl s' = AwaitRace" "\<not> race_pending s'"
      by (auto simp add: f)
    show "ctrl s' = AwaitAll" if "all_pending s'" using that by (simp add: f)
  qed
  show "inv_bound limit s'"
  proof (rule inv_boundI)
    show "length (executing s') \<le> nat (max 1 limit)" using b_le [OF b] by (simp add: f)
    show "length (executing s') < nat (max 1 limit)" if "ctrl s' = Running"
      using awaiting that by (simp add: f)
    show "length (executing s') < nat (max 1 limit)"
      if "ctrl s' = AwaitRace" "Resume Fulfilled \<in> set (jobs s')"
      using race that no_resume_js by (simp add: f)
    show "q \<in> set (executing s')"
      if "race_pending s'" for q
      using that by (simp add: f)
    show "\<exists>q o'. React (OnRace (races s') q) o' \<in> set (jobs s')" if "race_pending s'"
      using that by (simp add: f)
    show "\<exists>o'. React (OnRace (races s') q) o' \<in> set (jobs s')" if "race_pending s'" for q
      using that by (simp add: f)
    show "limit \<le> int (length (started s'))" if "ctrl s' = AwaitRace"
      using b_limit [OF b] that by (simp add: f)
  qed
  show "inv_all items s'"
  proof (rule inv_allI)
    show "length (started s') = length items" if "ctrl s' = AwaitAll \<or> ctrl s' = Returned"
      using a_started [OF a] that by (simp add: f)
    show "q \<in> set (all_waiting s')" if "all_pending s'" for q
      using that by (simp add: f)
    show "promise s' q \<noteq> None"
      if "ctrl s' = AwaitAll" "\<not> all_pending s'" "Resume Fulfilled \<in> set (jobs s')"
        "q < length (started s')" for q
      using all [of q] that no_resume_js by (simp add: f)
    show "promise s' q \<noteq> None" if "ctrl s' = Returned" "q < length (started s')" for q
      using awaiting that by (simp add: f)
  qed
qed

text \<open>The job at the head is the continuation of the \<open>await\<close>.\<close>

lemma inv_job_resume:
  assumes i: "inv items limit s" and j: "jobs s = Resume out # js"
    and f: "started s' = started s" "promise s' = promise s" "reactions s' = reactions s"
      "executing s' = executing s" "jobs s' = js"
      "ctrl s' = (if out = Rejected then Threw else if ctrl s = AwaitRace then Running else Returned)"
      "races s' = races s" "race_pending s' = race_pending s"
      "all_waiting s' = all_waiting s" "all_pending s' = all_pending s"
  shows "inv items limit s'"
proof (rule invI)
  note wf = inv_parts(1) [OF i] and ff = inv_parts(2) [OF i] and c = inv_parts(3) [OF i]
    and b = inv_parts(4) [OF i] and a = inv_parts(5) [OF i]
  have mem: "x \<in> set (jobs s) \<longleftrightarrow> x = Resume out \<or> x \<in> set js" for x
    using j by auto
  from c_resume [OF c, of out] have quiet: "\<not> race_pending s" "\<not> all_pending s"
    and awaiting: "ctrl s = AwaitRace \<or> ctrl s = AwaitAll"
    by (simp_all add: mem)
  have "filter is_resume js = []"
    using c_one [OF c] by (simp add: j)
  then have no_resume: "Resume o' \<notin> set js" for o'
    by (simp add: filter_is_resume_empty)
  have ctrl': "ctrl s' \<noteq> AwaitRace" "ctrl s' \<noteq> AwaitAll"
    by (simp_all add: f)
  show "inv_wf items s'"
  proof (rule inv_wfI)
    show "distinct (executing s')" using wf_distinct [OF wf] by (simp add: f)
    show "q \<in> set (executing s') \<Longrightarrow> q < length (started s')" for q
      using wf_lt [OF wf, of q] by (simp add: f)
    show "started s' = take (length (started s')) items" using wf_started [OF wf] by (simp add: f)
    show "length (started s') \<le> length items" using wf_le [OF wf] by (simp add: f)
    show "q \<in> set (executing s') \<and> (\<exists>rs. reactions s' q = OnFinally q # rs)"
      if "q < length (started s')" "promise s' q = None" for q
      using that wf_pending [OF wf, of q] by (simp add: f)
    show "\<exists>o'. React (OnFinally q) o' \<in> set (jobs s')"
      if "q \<in> set (executing s')" "promise s' q \<noteq> None" for q
      using wf_settled [OF wf, of q] that by (auto simp add: f mem)
    show "about r' = q \<and> q < length (started s') \<and> promise s' q = None \<and> race_no r' \<le> races s'"
      if "r' \<in> set (reactions s' q)" for q r'
      using that wf_reaction [OF wf, of r' q] by (simp add: f)
    show "about r' < length (started s') \<and> promise s' (about r') = Some o' \<and> race_no r' \<le> races s'"
      if "React r' o' \<in> set (jobs s')" for r' o'
      using that wf_job [OF wf, of r' o'] by (simp add: f mem)
  qed
  show "finally_first (races s') (set (executing s')) (jobs s')"
    using ff by (simp add: f j)
  show "inv_ctrl s'"
  proof (rule inv_ctrlI)
    show "\<not> race_pending s' \<and> \<not> all_pending s' \<and> (ctrl s' = AwaitRace \<or> ctrl s' = AwaitAll)"
      if "Resume o' \<in> set (jobs s')" for o'
      using that no_resume by (simp add: f(5))
    show "length (filter is_resume (jobs s')) \<le> 1"
      using \<open>filter is_resume js = []\<close> by (simp add: f(5))
    show "ctrl s' = AwaitRace" if "race_pending s'" using that quiet by (simp add: f(8))
    show "\<exists>o'. Resume o' \<in> set (jobs s')" if "ctrl s' = AwaitRace"
      using that ctrl' by simp
    show "ctrl s' = AwaitAll" if "all_pending s'" using that quiet by (simp add: f(10))
  qed
  show "inv_bound limit s'"
  proof (rule inv_boundI)
    show "length (executing s') \<le> nat (max 1 limit)" using b_le [OF b] by (simp add: f(4))
    show "length (executing s') < nat (max 1 limit)" if "ctrl s' = Running"
    proof -
      from that have "out = Fulfilled" "ctrl s = AwaitRace"
        by (auto simp add: f(6) split: if_splits intro: settled.exhaust)
      with b_resume [OF b] show ?thesis by (simp add: f(4) mem)
    qed
    show "length (executing s') < nat (max 1 limit)" if "ctrl s' = AwaitRace"
      using that ctrl' by simp
    show "q \<in> set (executing s')" if "race_pending s'" for q
      using that quiet by (simp add: f(8))
    show "\<exists>q o'. React (OnRace (races s') q) o' \<in> set (jobs s')" if "race_pending s'"
      using that quiet by (simp add: f(8))
    show "\<exists>o'. React (OnRace (races s') q) o' \<in> set (jobs s')" if "race_pending s'" for q
      using that quiet by (simp add: f(8))
    show "limit \<le> int (length (started s'))" if "ctrl s' = AwaitRace"
      using that ctrl' by simp
  qed
  show "inv_all items s'"
  proof (rule inv_allI)
    show "length (started s') = length items" if "ctrl s' = AwaitAll \<or> ctrl s' = Returned"
    proof -
      from that ctrl' have "ctrl s' = Returned" by simp
      then have "ctrl s = AwaitAll" using awaiting by (auto simp add: f(6) split: if_splits)
      with a_started [OF a] show ?thesis by (simp add: f(1))
    qed
    show "q \<in> set (all_waiting s')" if "all_pending s'" for q
      using that quiet by (simp add: f(10))
    show "promise s' q \<noteq> None" if "ctrl s' = AwaitAll" for q
      using that ctrl' by simp
    show "promise s' q \<noteq> None" if "ctrl s' = Returned" "q < length (started s')" for q
    proof -
      from that(1) have "ctrl s = AwaitAll" "out = Fulfilled"
        using awaiting by (auto simp add: f(6) split: if_splits intro: settled.exhaust)
      with a_resume [OF a, of q] quiet that(2) show ?thesis by (simp add: f(1,2) mem)
    qed
  qed
qed

lemma inv_run_job:
  assumes i: "inv items limit s" and j: "jobs s = j # js"
  shows "inv items limit (run_job j (s\<lparr>jobs := js\<rparr>))"
proof -
  note wf = inv_parts(1) [OF i] and ff = inv_parts(2) [OF i] and c = inv_parts(3) [OF i]
    and b = inv_parts(4) [OF i] and a = inv_parts(5) [OF i]
  show ?thesis
  proof (cases j)
    case (Resume out)
    from c_resume [OF c, of out] j Resume have "ctrl s = AwaitRace \<or> ctrl s = AwaitAll" by simp
    then show ?thesis
      using j Resume by (intro inv_job_resume [OF i, of out js]; cases out) auto
  next
    case (React r out)
    show ?thesis
    proof (cases r)
      case (OnFinally p)
      with j React show ?thesis
        by (intro inv_job_finally [OF i, of p out js]) simp_all
    next
      case (OnRace n q)
      show ?thesis
      proof (cases "n = races s \<and> race_pending s")
        case True
        have notin: "q \<notin> set (executing s)"
          using ff j React OnRace True by simp
        have race: "length (executing s) < nat (max 1 limit)"
          using b_member [OF b, of q out] True notin j React OnRace by auto
        have "ctrl s = AwaitRace" using c_race [OF c] True by simp
        moreover from this have "\<not> all_pending s" using c_all [OF c] by auto
        ultimately show ?thesis
          using j React OnRace True race
          by (intro inv_job_resolve [OF i, of r out js out]) simp_all
      next
        case False
        then show ?thesis
          using j React OnRace
          by (intro inv_job_skip [OF i, of r out js]) auto
      qed
    next
      case (OnAll q)
      have settled: "promise s q = Some out"
        using wf_job [OF wf, of r out] j React OnAll by simp
      show ?thesis
      proof (cases "all_pending s")
        case False
        then show ?thesis
          using j React OnAll
          by (intro inv_job_skip [OF i, of r out js]; cases out) auto
      next
        case True
        then have awaitall: "ctrl s = AwaitAll" using c_all [OF c] by simp
        then have norace: "\<not> race_pending s" using c_race [OF c] by auto
        show ?thesis
        proof (cases out)
          case Rejected
          then show ?thesis
            using j React OnAll True awaitall norace
            by (intro inv_job_resolve [OF i, of r out js Rejected]) simp_all
        next
          case Fulfilled
          show ?thesis
          proof (cases "removeAll q (all_waiting s) = []")
            case empty: True
            have all: "promise s q' \<noteq> None" if "q' < length (started s)" for q'
            proof
              assume "promise s q' = None"
              with a_waiting [OF a True that] have "q' \<in> set (all_waiting s)" by simp
              moreover from \<open>promise s q' = None\<close> settled have "q' \<noteq> q" by auto
              ultimately have "q' \<in> set (removeAll q (all_waiting s))" by simp
              with empty show False by simp
            qed
            show ?thesis
              using j React OnAll True awaitall norace Fulfilled empty all
              by (intro inv_job_resolve [OF i, of r out js Fulfilled]) simp_all
          next
            case False
            have keep: "q' \<in> set (removeAll q (all_waiting s))"
              if "q' \<in> set (all_waiting s)" "promise s q' = None" for q'
              using that settled by auto
            show ?thesis
              using j React OnAll True Fulfilled False keep
              by (intro inv_job_skip [OF i, of r out js]) simp_all
          qed
        qed
      qed
    qed
  qed
qed

lemma started_subscribe [simp]: "started (subscribe mk qs s) = started s"
  and promise_subscribe [simp]: "promise (subscribe mk qs s) = promise s"
  and executing_subscribe [simp]: "executing (subscribe mk qs s) = executing s"
  and ctrl_subscribe [simp]: "ctrl (subscribe mk qs s) = ctrl s"
  and races_subscribe [simp]: "races (subscribe mk qs s) = races s"
  and race_pending_subscribe [simp]: "race_pending (subscribe mk qs s) = race_pending s"
  and all_waiting_subscribe [simp]: "all_waiting (subscribe mk qs s) = all_waiting s"
  and all_pending_subscribe [simp]: "all_pending (subscribe mk qs s) = all_pending s"
  and reactions_subscribe: "reactions (subscribe mk qs s) q =
        (if q \<in> set qs \<and> promise s q = None then reactions s q @ [mk q] else reactions s q)"
  by (simp_all add: subscribe_def)

lemma jobs_subscribe: "jobs (subscribe mk qs s) = jobs s @ then_jobs mk qs s"
  by (simp add: subscribe_def)

lemma then_jobs_mem:
  "x \<in> set (then_jobs mk qs s) \<longleftrightarrow> (\<exists>q \<in> set qs. \<exists>out. promise s q = Some out \<and> x = React (mk q) out)"
proof (induction qs)
  case Nil
  show ?case by (simp add: then_jobs_def)
next
  case (Cons a qs)
  have "then_jobs mk (a # qs) s =
      (case promise s a of None \<Rightarrow> [] | Some out \<Rightarrow> [React (mk a) out]) @ then_jobs mk qs s"
    by (simp add: then_jobs_def)
  with Cons show ?case by (cases "promise s a") auto
qed

lemma then_jobs_no_resume [simp]: "filter is_resume (then_jobs mk qs s) = []"
  by (simp add: filter_is_resume_empty then_jobs_mem)

lemma distinct_length_le:
  assumes "distinct xs" "\<And>x. x \<in> set xs \<Longrightarrow> x < m"
  shows "length xs \<le> (m::nat)"
proof -
  from assms(2) have "set xs \<subseteq> {..<m}" by auto
  then have "card (set xs) \<le> card {..<m}" by (intro card_mono) simp_all
  with assms(1) show ?thesis by (simp add: distinct_card)
qed

lemma finally_first_insert:
  "finally_first n ex js \<Longrightarrow> \<forall>r out. React r out \<in> set js \<longrightarrow> about r \<noteq> p \<Longrightarrow>
   finally_first n (insert p ex) js"
proof (induction n ex js rule: finally_first.induct)
  case (2 n ex p' out js)
  from 2(3) have "p' \<noteq> p" by auto
  then have eq: "insert p ex - {p'} = insert p (ex - {p'})" by auto
  from 2(3) have "\<forall>r out. React r out \<in> set js \<longrightarrow> about r \<noteq> p" by auto
  with 2(1) 2(2) have "finally_first n (insert p (ex - {p'})) js" by simp
  with eq show ?case by simp
next
  case (3 n ex m q out js)
  from 3(3) have "q \<noteq> p" by auto
  moreover from 3(3) have "\<forall>r out. React r out \<in> set js \<longrightarrow> about r \<noteq> p" by auto
  ultimately show ?case using 3(1) 3(2) by simp
qed auto

lemma running_quiet:
  assumes c: "inv_ctrl s" and run: "ctrl s = Running"
  shows "\<not> race_pending s" and "\<not> all_pending s" and "Resume out \<notin> set (jobs s)"
    and "filter is_resume (jobs s) = []"
proof -
  show "\<not> race_pending s" using c_race [OF c] run by auto
  show "\<not> all_pending s" using c_all [OF c] run by auto
  show r: "Resume out \<notin> set (jobs s)" for out using c_resume [OF c, of out] run by auto
  then show "filter is_resume (jobs s) = []" by (simp add: filter_is_resume_empty)
qed

text \<open>\<open>fn\<close> threw.\<close>

lemma inv_throw:
  assumes i: "inv items limit s" and run: "ctrl s = Running"
    and f: "started s' = started s" "promise s' = promise s" "reactions s' = reactions s"
      "executing s' = executing s" "jobs s' = jobs s" "ctrl s' = Threw"
      "races s' = races s" "race_pending s' = race_pending s"
      "all_waiting s' = all_waiting s" "all_pending s' = all_pending s"
  shows "inv items limit s'"
proof (rule invI)
  note wf = inv_parts(1) [OF i] and ff = inv_parts(2) [OF i] and c = inv_parts(3) [OF i]
    and b = inv_parts(4) [OF i] and a = inv_parts(5) [OF i]
  note quiet = running_quiet [OF c run]
  show "inv_wf items s'"
    using wf unfolding inv_wf_def f .
  show "finally_first (races s') (set (executing s')) (jobs s')"
    using ff by (simp add: f)
  show "inv_ctrl s'"
  proof (rule inv_ctrlI)
    show "\<not> race_pending s' \<and> \<not> all_pending s' \<and> (ctrl s' = AwaitRace \<or> ctrl s' = AwaitAll)"
      if "Resume out' \<in> set (jobs s')" for out'
      using that quiet(3) by (simp add: f)
    show "length (filter is_resume (jobs s')) \<le> 1" using quiet(4) by (simp add: f)
    show "ctrl s' = AwaitRace" if "race_pending s'" using that quiet(1) by (simp add: f)
    show "\<exists>out'. Resume out' \<in> set (jobs s')" if "ctrl s' = AwaitRace"
      using that by (simp add: f)
    show "ctrl s' = AwaitAll" if "all_pending s'" using that quiet(2) by (simp add: f)
  qed
  show "inv_bound limit s'"
  proof (rule inv_boundI)
    show "length (executing s') \<le> nat (max 1 limit)" using b_le [OF b] by (simp add: f)
    show "length (executing s') < nat (max 1 limit)" if "ctrl s' = Running"
      using that by (simp add: f)
    show "length (executing s') < nat (max 1 limit)" if "ctrl s' = AwaitRace"
      using that by (simp add: f)
    show "q \<in> set (executing s')" if "race_pending s'" for q
      using that quiet(1) by (simp add: f)
    show "\<exists>q o'. React (OnRace (races s') q) o' \<in> set (jobs s')" if "race_pending s'"
      using that quiet(1) by (simp add: f)
    show "\<exists>o'. React (OnRace (races s') q) o' \<in> set (jobs s')" if "race_pending s'" for q
      using that quiet(1) by (simp add: f)
    show "limit \<le> int (length (started s'))" if "ctrl s' = AwaitRace"
      using that by (simp add: f)
  qed
  show "inv_all items s'"
  proof (rule inv_allI)
    show "length (started s') = length items" if "ctrl s' = AwaitAll \<or> ctrl s' = Returned"
      using that by (simp add: f)
    show "q \<in> set (all_waiting s')" if "all_pending s'" for q
      using that quiet(2) by (simp add: f)
    show "promise s' q \<noteq> None" if "ctrl s' = AwaitAll" for q
      using that by (simp add: f)
    show "promise s' q \<noteq> None" if "ctrl s' = Returned" for q
      using that by (simp add: f)
  qed
qed

text \<open>\<open>fn\<close> returned the promise \<open>n\<close>, which is now in \<open>executing\<close> with its \<open>finally\<close> callback.\<close>

lemma start_parts:
  assumes i: "inv items limit s" and run: "ctrl s = Running"
    and n: "n = length (started s)" "n < length items"
    and f: "started s' = started s @ [items ! n]" "promise s' = (promise s)(n := out)"
      "reactions s' = (reactions s)(n := (case out of None \<Rightarrow> [OnFinally n] | Some x \<Rightarrow> []))"
      "executing s' = executing s @ [n]"
      "jobs s' = jobs s @ (case out of None \<Rightarrow> [] | Some x \<Rightarrow> [React (OnFinally n) x])"
      "ctrl s' = Running"
      "races s' = races s" "race_pending s' = race_pending s"
      "all_waiting s' = all_waiting s" "all_pending s' = all_pending s"
  shows "inv_wf items s'" and "finally_first (races s') (set (executing s')) (jobs s')"
    and "inv_ctrl s'" and "inv_all items s'"
proof -
  note wf = inv_parts(1) [OF i] and ff = inv_parts(2) [OF i] and c = inv_parts(3) [OF i]
    and b = inv_parts(4) [OF i] and a = inv_parts(5) [OF i]
  note quiet = running_quiet [OF c run]
  have fresh: "n \<notin> set (executing s)" using wf_lt [OF wf, of n] n(1) by auto
  have len: "length (started s') = Suc n" by (simp add: f n(1))
  have newjob: "x \<in> set (jobs s') \<longleftrightarrow> x \<in> set (jobs s) \<or> (\<exists>o'. out = Some o' \<and> x = React (OnFinally n) o')" for x
    by (cases out) (auto simp add: f)
  have old_about: "about r < n" if "React r o' \<in> set (jobs s)" for r o'
    using wf_job [OF wf that] n(1) by simp
  show "inv_wf items s'"
  proof (rule inv_wfI)
    show "distinct (executing s')" using wf_distinct [OF wf] fresh by (simp add: f)
    show "q \<in> set (executing s') \<Longrightarrow> q < length (started s')" for q
      using wf_lt [OF wf, of q] n(1) by (auto simp add: f)
    show "started s' = take (length (started s')) items"
      using wf_started [OF wf] n by (simp add: f take_Suc_conv_app_nth)
    show "length (started s') \<le> length items" using n by (simp add: f)
    show "q \<in> set (executing s') \<and> (\<exists>rs. reactions s' q = OnFinally q # rs)"
      if "q < length (started s')" "promise s' q = None" for q
    proof (cases "q = n")
      case True
      with that show ?thesis by (simp add: f)
    next
      case False
      with that have "q < length (started s)" "promise s q = None" by (simp_all add: f n(1))
      from wf_pending [OF wf this] False show ?thesis by (simp add: f)
    qed
    show "\<exists>o'. React (OnFinally q) o' \<in> set (jobs s')"
      if "q \<in> set (executing s')" "promise s' q \<noteq> None" for q
    proof (cases "q = n")
      case True
      with that obtain o' where "out = Some o'" by (auto simp add: f)
      with True have "React (OnFinally q) o' \<in> set (jobs s')" by (simp add: newjob)
      then show ?thesis ..
    next
      case False
      with that have "q \<in> set (executing s)" "promise s q \<noteq> None" by (simp_all add: f)
      from wf_settled [OF wf this] obtain o' where "React (OnFinally q) o' \<in> set (jobs s)" ..
      then have "React (OnFinally q) o' \<in> set (jobs s')" by (simp add: newjob)
      then show ?thesis ..
    qed
    show "about r = q \<and> q < length (started s') \<and> promise s' q = None \<and> race_no r \<le> races s'"
      if "r \<in> set (reactions s' q)" for q r
    proof (cases "q = n")
      case True
      with that show ?thesis by (cases out) (simp_all add: f n(1))
    next
      case False
      with that have "r \<in> set (reactions s q)" by (simp add: f)
      from wf_reaction [OF wf this] False show ?thesis by (simp add: f n(1))
    qed
    show "about r < length (started s') \<and> promise s' (about r) = Some o' \<and> race_no r \<le> races s'"
      if "React r o' \<in> set (jobs s')" for r o'
    proof -
      from that consider "React r o' \<in> set (jobs s)" | "out = Some o'" "r = OnFinally n"
        by (auto simp add: newjob)
      then show ?thesis
      proof cases
        case 1
        from wf_job [OF wf 1] old_about [OF 1] show ?thesis by (simp add: f n(1))
      next
        case 2
        then show ?thesis by (simp add: f n(1))
      qed
    qed
  qed
  have "finally_first (races s) (insert n (set (executing s))) (jobs s)"
    using ff old_about by (intro finally_first_insert) auto
  then show "finally_first (races s') (set (executing s')) (jobs s')"
    by (cases out) (simp_all add: f finally_first_append)
  have no_resume: "Resume o' \<notin> set (jobs s')" for o'
    using quiet(3) by (simp add: newjob)
  show "inv_ctrl s'"
  proof (rule inv_ctrlI)
    show "\<not> race_pending s' \<and> \<not> all_pending s' \<and> (ctrl s' = AwaitRace \<or> ctrl s' = AwaitAll)"
      if "Resume out' \<in> set (jobs s')" for out'
      using that no_resume by simp
    show "length (filter is_resume (jobs s')) \<le> 1"
      using no_resume by (simp add: filter_is_resume_empty [THEN iffD2])
    show "ctrl s' = AwaitRace" if "race_pending s'" using that quiet(1) by (simp add: f)
    show "\<exists>out'. Resume out' \<in> set (jobs s')" if "ctrl s' = AwaitRace"
      using that by (simp add: f)
    show "ctrl s' = AwaitAll" if "all_pending s'" using that quiet(2) by (simp add: f)
  qed
  show "inv_all items s'"
  proof (rule inv_allI)
    show "length (started s') = length items" if "ctrl s' = AwaitAll \<or> ctrl s' = Returned"
      using that by (simp add: f)
    show "q \<in> set (all_waiting s')" if "all_pending s'" for q
      using that quiet(2) by (simp add: f)
    show "promise s' q \<noteq> None" if "ctrl s' = AwaitAll" for q
      using that by (simp add: f)
    show "promise s' q \<noteq> None" if "ctrl s' = Returned" for q
      using that by (simp add: f)
  qed
qed

text \<open>The loop goes on without waiting.\<close>

lemma inv_start:
  assumes i: "inv items limit s" and run: "ctrl s = Running"
    and n: "n = length (started s)" "n < length items"
    and room: "\<not> limit \<le> int (length (executing s')) "
    and f: "started s' = started s @ [items ! n]" "promise s' = (promise s)(n := out)"
      "reactions s' = (reactions s)(n := (case out of None \<Rightarrow> [OnFinally n] | Some x \<Rightarrow> []))"
      "executing s' = executing s @ [n]"
      "jobs s' = jobs s @ (case out of None \<Rightarrow> [] | Some x \<Rightarrow> [React (OnFinally n) x])"
      "ctrl s' = Running"
      "races s' = races s" "race_pending s' = race_pending s"
      "all_waiting s' = all_waiting s" "all_pending s' = all_pending s"
  shows "inv items limit s'"
proof (rule invI)
  note parts = start_parts [OF i run n f]
  note c = inv_parts(3) [OF i]
  note quiet = running_quiet [OF c run]
  show "inv_wf items s'" by (rule parts(1))
  show "finally_first (races s') (set (executing s')) (jobs s')" by (rule parts(2))
  show "inv_ctrl s'" by (rule parts(3))
  show "inv_all items s'" by (rule parts(4))
  show "inv_bound limit s'"
  proof (rule inv_boundI)
    from room have lt: "length (executing s') < nat (max 1 limit)" by simp
    then show "length (executing s') \<le> nat (max 1 limit)" by simp
    show "length (executing s') < nat (max 1 limit)" by (rule lt)
    show "length (executing s') < nat (max 1 limit)" by (rule lt)
    show "q \<in> set (executing s')" if "race_pending s'" for q
      using that quiet(1) by (simp add: f)
    show "\<exists>q o'. React (OnRace (races s') q) o' \<in> set (jobs s')" if "race_pending s'"
      using that quiet(1) by (simp add: f)
    show "\<exists>o'. React (OnRace (races s') q) o' \<in> set (jobs s')" if "race_pending s'" for q
      using that quiet(1) by (simp add: f)
    show "limit \<le> int (length (started s'))" if "ctrl s' = AwaitRace"
      using that by (simp add: f)
  qed
qed

text \<open>The set is full: \<open>pLimit\<close> suspends in \<open>await Promise.race(executing)\<close>.\<close>

lemma inv_race:
  assumes wf: "inv_wf items t" and ff: "finally_first (races t) (set (executing t)) (jobs t)"
    and c: "inv_ctrl t" and a: "inv_all items t" and run: "ctrl t = Running"
    and nonempty: "executing t \<noteq> []"
    and len: "length (executing t) \<le> nat (max 1 limit)"
    and lim: "limit \<le> int (length (executing t))"
    and f: "started s' = started t" "promise s' = promise t"
      "\<And>q. reactions s' q =
          (if q \<in> set (executing t) \<and> promise t q = None
           then reactions t q @ [OnRace (Suc (races t)) q] else reactions t q)"
      "executing s' = executing t"
      "jobs s' = jobs t @ then_jobs (OnRace (Suc (races t))) (executing t) t"
      "ctrl s' = AwaitRace"
      "races s' = Suc (races t)" "race_pending s' = True"
      "all_waiting s' = all_waiting t" "all_pending s' = all_pending t"
  shows "inv items limit s'"
proof (rule invI)
  note quiet = running_quiet [OF c run]
  have new: "x \<in> set (then_jobs (OnRace (Suc (races t))) (executing t) t) \<longleftrightarrow>
      (\<exists>q \<in> set (executing t). \<exists>o'. promise t q = Some o' \<and> x = React (OnRace (Suc (races t)) q) o')" for x
    by (rule then_jobs_mem)
  have old_race: "n \<le> races t" if "React (OnRace n q) o' \<in> set (jobs t)" for n q o'
    using wf_job [OF wf that] by simp
  have race_job: "q \<in> set (executing t) \<and> promise t q = Some o'"
    if "React (OnRace (Suc (races t)) q) o' \<in> set (jobs s')" for q o'
  proof -
    from that consider "React (OnRace (Suc (races t)) q) o' \<in> set (jobs t)"
      | "React (OnRace (Suc (races t)) q) o' \<in> set (then_jobs (OnRace (Suc (races t))) (executing t) t)"
      by (auto simp add: f)
    then show ?thesis
    proof cases
      case 1
      from old_race [OF 1] show ?thesis by simp
    next
      case 2
      then show ?thesis by (auto simp add: new)
    qed
  qed
  show "inv_wf items s'"
  proof (rule inv_wfI)
    show "distinct (executing s')" using wf_distinct [OF wf] by (simp add: f)
    show "q \<in> set (executing s') \<Longrightarrow> q < length (started s')" for q
      using wf_lt [OF wf, of q] by (simp add: f)
    show "started s' = take (length (started s')) items" using wf_started [OF wf] by (simp add: f)
    show "length (started s') \<le> length items" using wf_le [OF wf] by (simp add: f)
    show "q \<in> set (executing s') \<and> (\<exists>rs. reactions s' q = OnFinally q # rs)"
      if "q < length (started s')" "promise s' q = None" for q
      using that wf_pending [OF wf, of q] by (auto simp add: f)
    show "\<exists>o'. React (OnFinally q) o' \<in> set (jobs s')"
      if "q \<in> set (executing s')" "promise s' q \<noteq> None" for q
      using that wf_settled [OF wf, of q] by (auto simp add: f)
    show "about r = q \<and> q < length (started s') \<and> promise s' q = None \<and> race_no r \<le> races s'"
      if "r \<in> set (reactions s' q)" for q r
    proof -
      from that consider "r \<in> set (reactions t q)"
        | "q \<in> set (executing t)" "promise t q = None" "r = OnRace (Suc (races t)) q"
        by (auto simp add: f split: if_splits)
      then show ?thesis
      proof cases
        case 1
        from wf_reaction [OF wf 1] show ?thesis by (simp add: f)
      next
        case 2
        with wf_lt [OF wf 2(1)] show ?thesis by (simp add: f)
      qed
    qed
    show "about r < length (started s') \<and> promise s' (about r) = Some o' \<and> race_no r \<le> races s'"
      if "React r o' \<in> set (jobs s')" for r o'
    proof -
      from that consider "React r o' \<in> set (jobs t)"
        | q where "q \<in> set (executing t)" "promise t q = Some o'" "r = OnRace (Suc (races t)) q"
        by (auto simp add: f new)
      then show ?thesis
      proof cases
        case 1
        from wf_job [OF wf 1] show ?thesis by (simp add: f)
      next
        case 2
        with wf_lt [OF wf 2(1)] show ?thesis by (simp add: f)
      qed
    qed
  qed
  show "finally_first (races s') (set (executing s')) (jobs s')"
    unfolding f finally_first_append
  proof
    show "finally_first (Suc (races t)) (set (executing t)) (jobs t)"
    proof (rule finally_first_absent, intro ballI allI impI)
      fix j r o' q
      assume "j \<in> set (jobs t)" "j = React r o'" "r = OnRace (Suc (races t)) q"
      with old_race [of "Suc (races t)" q o'] show "q \<notin> set (executing t)" by simp
    qed
    show "finally_first (Suc (races t))
        (set (executing t) - {p. \<exists>out. React (OnFinally p) out \<in> set (jobs t)})
        (then_jobs (OnRace (Suc (races t))) (executing t) t)"
    proof (rule finally_first_absent, intro ballI allI impI)
      fix j r o' q
      assume "j \<in> set (then_jobs (OnRace (Suc (races t))) (executing t) t)" "j = React r o'"
        "r = OnRace (Suc (races t)) q"
      then have "q \<in> set (executing t)" "promise t q \<noteq> None" by (auto simp add: new)
      from wf_settled [OF wf this]
      show "q \<notin> set (executing t) - {p. \<exists>out. React (OnFinally p) out \<in> set (jobs t)}" by simp
    qed
  qed
  have no_resume: "Resume o' \<notin> set (jobs s')" for o'
    using quiet(3) by (simp add: f new)
  show "inv_ctrl s'"
  proof (rule inv_ctrlI)
    show "\<not> race_pending s' \<and> \<not> all_pending s' \<and> (ctrl s' = AwaitRace \<or> ctrl s' = AwaitAll)"
      if "Resume out' \<in> set (jobs s')" for out'
      using that no_resume by simp
    show "length (filter is_resume (jobs s')) \<le> 1"
      using no_resume by (simp add: filter_is_resume_empty [THEN iffD2])
    show "ctrl s' = AwaitRace" by (simp add: f)
    show "\<exists>out'. Resume out' \<in> set (jobs s')" if "\<not> race_pending s'"
      using that by (simp add: f)
    show "ctrl s' = AwaitAll" if "all_pending s'" using that quiet(2) by (simp add: f)
  qed
  show "inv_bound limit s'"
  proof (rule inv_boundI)
    show "length (executing s') \<le> nat (max 1 limit)" using len by (simp add: f)
    show "length (executing s') < nat (max 1 limit)" if "ctrl s' = Running"
      using that by (simp add: f)
    show "length (executing s') < nat (max 1 limit)" if "Resume Fulfilled \<in> set (jobs s')"
      using that no_resume by simp
    show "q \<in> set (executing s')"
      if "React (OnRace (races s') q) out' \<in> set (jobs s')" for q out'
      using race_job [of q out'] that by (simp add: f(4,7))
    have "length (executing t) = nat (max 1 limit)"
    proof (cases "1 \<le> limit")
      case True
      with len lim show ?thesis by simp
    next
      case False
      with len nonempty show ?thesis by (cases "executing t") simp_all
    qed
    then show "\<exists>q o'. React (OnRace (races s') q) o' \<in> set (jobs s')"
      if "length (executing s') \<noteq> nat (max 1 limit)"
      using that by (simp add: f)
    show "\<exists>o'. React (OnRace (races s') q) o' \<in> set (jobs s')"
      if "q \<in> set (executing s')" "OnRace (races s') q \<notin> set (reactions s' q)" for q
    proof (cases "promise t q")
      case None
      with that show ?thesis by (simp add: f)
    next
      case (Some o')
      with that(1) have "React (OnRace (races s') q) o' \<in> set (jobs s')"
        by (auto simp add: f new)
      then show ?thesis ..
    qed
    have "length (executing t) \<le> length (started t)"
      using wf_distinct [OF wf] wf_lt [OF wf] by (rule distinct_length_le)
    with lim show "limit \<le> int (length (started s'))" by (simp add: f)
  qed
  show "inv_all items s'"
  proof (rule inv_allI)
    show "length (started s') = length items" if "ctrl s' = AwaitAll \<or> ctrl s' = Returned"
      using that by (simp add: f)
    show "q \<in> set (all_waiting s')" if "all_pending s'" for q
      using that quiet(2) by (simp add: f)
    show "promise s' q \<noteq> None" if "ctrl s' = AwaitAll" for q
      using that by (simp add: f)
    show "promise s' q \<noteq> None" if "ctrl s' = Returned" for q
      using that by (simp add: f)
  qed
qed

text \<open>The loop is over: \<open>pLimit\<close> suspends in \<open>await Promise.all(executing)\<close>.\<close>

lemma inv_exit:
  assumes i: "inv items limit s" and run: "ctrl s = Running"
    and over: "\<not> length (started s) < length items"
    and f: "started s' = started s" "promise s' = promise s"
      "\<And>q. reactions s' q =
          (if q \<in> set (executing s) \<and> promise s q = None
           then reactions s q @ [OnAll q] else reactions s q)"
      "executing s' = executing s"
      "jobs s' = jobs s @ then_jobs OnAll (executing s) s @
                 (if executing s = [] then [Resume Fulfilled] else [])"
      "ctrl s' = AwaitAll"
      "races s' = races s" "race_pending s' = race_pending s"
      "all_waiting s' = executing s" "all_pending s' = (executing s \<noteq> [])"
  shows "inv items limit s'"
proof (rule invI)
  note wf = inv_parts(1) [OF i] and ff = inv_parts(2) [OF i] and c = inv_parts(3) [OF i]
    and b = inv_parts(4) [OF i] and a = inv_parts(5) [OF i]
  note quiet = running_quiet [OF c run]
  have new: "x \<in> set (then_jobs OnAll (executing s) s) \<longleftrightarrow>
      (\<exists>q \<in> set (executing s). \<exists>o'. promise s q = Some o' \<and> x = React (OnAll q) o')" for x
    by (rule then_jobs_mem)
  have resume: "Resume o' \<in> set (jobs s') \<longleftrightarrow> executing s = [] \<and> o' = Fulfilled" for o'
    using quiet(3) by (auto simp add: f new)
  show "inv_wf items s'"
  proof (rule inv_wfI)
    show "distinct (executing s')" using wf_distinct [OF wf] by (simp add: f)
    show "q \<in> set (executing s') \<Longrightarrow> q < length (started s')" for q
      using wf_lt [OF wf, of q] by (simp add: f)
    show "started s' = take (length (started s')) items" using wf_started [OF wf] by (simp add: f)
    show "length (started s') \<le> length items" using wf_le [OF wf] by (simp add: f)
    show "q \<in> set (executing s') \<and> (\<exists>rs. reactions s' q = OnFinally q # rs)"
      if "q < length (started s')" "promise s' q = None" for q
      using that wf_pending [OF wf, of q] by (auto simp add: f)
    show "\<exists>o'. React (OnFinally q) o' \<in> set (jobs s')"
      if "q \<in> set (executing s')" "promise s' q \<noteq> None" for q
      using that wf_settled [OF wf, of q] by (auto simp add: f)
    show "about r = q \<and> q < length (started s') \<and> promise s' q = None \<and> race_no r \<le> races s'"
      if "r \<in> set (reactions s' q)" for q r
    proof -
      from that consider "r \<in> set (reactions s q)"
        | "q \<in> set (executing s)" "promise s q = None" "r = OnAll q"
        by (auto simp add: f split: if_splits)
      then show ?thesis
      proof cases
        case 1
        from wf_reaction [OF wf 1] show ?thesis by (simp add: f)
      next
        case 2
        with wf_lt [OF wf 2(1)] show ?thesis by (simp add: f)
      qed
    qed
    show "about r < length (started s') \<and> promise s' (about r) = Some o' \<and> race_no r \<le> races s'"
      if "React r o' \<in> set (jobs s')" for r o'
    proof -
      from that consider "React r o' \<in> set (jobs s)"
        | q where "q \<in> set (executing s)" "promise s q = Some o'" "r = OnAll q"
        by (auto simp add: f new split: if_splits)
      then show ?thesis
      proof cases
        case 1
        from wf_job [OF wf 1] show ?thesis by (simp add: f)
      next
        case 2
        with wf_lt [OF wf 2(1)] show ?thesis by (simp add: f)
      qed
    qed
  qed
  have "finally_first (races s) ex (then_jobs OnAll (executing s) s)" for ex
    by (rule finally_first_absent) (auto simp add: new)
  then show "finally_first (races s') (set (executing s')) (jobs s')"
    using ff by (simp add: f finally_first_append)
  show "inv_ctrl s'"
  proof (rule inv_ctrlI)
    show "\<not> race_pending s' \<and> \<not> all_pending s' \<and> (ctrl s' = AwaitRace \<or> ctrl s' = AwaitAll)"
      if "Resume out' \<in> set (jobs s')" for out'
      using that quiet(1) by (simp add: resume f(6,8,10))
    show "length (filter is_resume (jobs s')) \<le> 1"
      using quiet(4) by (simp add: f)
    show "ctrl s' = AwaitRace" if "race_pending s'" using that quiet(1) by (simp add: f)
    show "\<exists>out'. Resume out' \<in> set (jobs s')" if "ctrl s' = AwaitRace"
      using that by (simp add: f)
    show "ctrl s' = AwaitAll" by (simp add: f)
  qed
  show "inv_bound limit s'"
  proof (rule inv_boundI)
    show "length (executing s') \<le> nat (max 1 limit)" using b_le [OF b] by (simp add: f)
    show "length (executing s') < nat (max 1 limit)" if "ctrl s' = Running"
      using that by (simp add: f)
    show "length (executing s') < nat (max 1 limit)" if "ctrl s' = AwaitRace"
      using that by (simp add: f)
    show "q \<in> set (executing s')" if "race_pending s'" for q
      using that quiet(1) by (simp add: f)
    show "\<exists>q o'. React (OnRace (races s') q) o' \<in> set (jobs s')" if "race_pending s'"
      using that quiet(1) by (simp add: f)
    show "\<exists>o'. React (OnRace (races s') q) o' \<in> set (jobs s')" if "race_pending s'" for q
      using that quiet(1) by (simp add: f)
    show "limit \<le> int (length (started s'))" if "ctrl s' = AwaitRace"
      using that by (simp add: f)
  qed
  show "inv_all items s'"
  proof (rule inv_allI)
    show "length (started s') = length items"
      using over wf_le [OF wf] by (simp add: f)
    show "q \<in> set (all_waiting s')" if "q < length (started s')" "promise s' q = None" for q
      using that wf_pending [OF wf, of q] by (simp add: f)
    show "promise s' q \<noteq> None" if "\<not> all_pending s'" "q < length (started s')" for q
      using that wf_pending [OF wf, of q] by (auto simp add: f)
    show "promise s' q \<noteq> None" if "ctrl s' = Returned" for q
      using that by (simp add: f)
  qed
qed

lemma then_jobs_all [simp]:
  "then_jobs mk qs (s\<lparr>all_waiting := w, all_pending := b\<rparr>) = then_jobs mk qs s"
  by (simp add: then_jobs_def)

lemma then_jobs_races [simp]:
  "then_jobs mk qs (s\<lparr>races := r, race_pending := b\<rparr>) = then_jobs mk qs s"
  by (simp add: then_jobs_def)

lemma inv_advance:
  assumes i: "inv items limit s" and run: "ctrl s = Running"
  shows "inv items limit (advance fn items (whole limit) s)"
proof (cases "length (started s) < length items")
  case False
  define s' where "s' = advance fn items (whole limit) s"
  have "inv items limit s'"
  proof (rule inv_exit [OF i run False])
    show "started s' = started s" "promise s' = promise s" "executing s' = executing s"
      "ctrl s' = AwaitAll" "races s' = races s" "race_pending s' = race_pending s"
      "all_waiting s' = executing s" "all_pending s' = (executing s \<noteq> [])"
      using False by (simp_all add: s'_def advance_def Let_def)
    show "reactions s' q =
          (if q \<in> set (executing s) \<and> promise s q = None
           then reactions s q @ [OnAll q] else reactions s q)" for q
      using False by (simp add: s'_def advance_def Let_def reactions_subscribe)
    show "jobs s' = jobs s @ then_jobs OnAll (executing s) s @
                 (if executing s = [] then [Resume Fulfilled] else [])"
      using False
      by (simp add: s'_def advance_def Let_def jobs_subscribe)
  qed
  then show ?thesis by (simp add: s'_def)
next
  case True
  define n where "n = length (started s)"
  show ?thesis
  proof (cases "fn (items ! n)")
    case Throws
    have "inv items limit (s\<lparr>ctrl := Threw\<rparr>)"
      by (rule inv_throw [OF i run]) simp_all
    with True Throws show ?thesis by (simp add: advance_def n_def)
  next
    case (Returns out)
    define s2 where "s2 = subscribe OnFinally [n]
        (s\<lparr>started := started s @ [items ! n], promise := (promise s)(n := out),
           reactions := (reactions s)(n := []), executing := executing s @ [n]\<rparr>)"
    have f: "started s2 = started s @ [items ! n]" "promise s2 = (promise s)(n := out)"
      "reactions s2 = (reactions s)(n := (case out of None \<Rightarrow> [OnFinally n] | Some x \<Rightarrow> []))"
      "executing s2 = executing s @ [n]"
      "jobs s2 = jobs s @ (case out of None \<Rightarrow> [] | Some x \<Rightarrow> [React (OnFinally n) x])"
      "ctrl s2 = Running"
      "races s2 = races s" "race_pending s2 = race_pending s"
      "all_waiting s2 = all_waiting s" "all_pending s2 = all_pending s"
      using run
      by (auto simp add: s2_def reactions_subscribe jobs_subscribe then_jobs_def fun_eq_iff
          split: option.splits)
    have adv: "advance fn items (whole limit) s =
        (if limit \<le> int (length (executing s2))
         then (subscribe (OnRace (Suc (races s2))) (executing s2)
                 (s2\<lparr>races := Suc (races s2), race_pending := True\<rparr>))\<lparr>ctrl := AwaitRace\<rparr>
         else s2)"
      using True Returns by (simp add: advance_def Let_def n_def s2_def)
    note nn = n_def True [folded n_def]
    show ?thesis
    proof (cases "limit \<le> int (length (executing s2))")
      case False
      from inv_start [OF i run nn False f] adv False show ?thesis by simp
    next
      case lim: True
      note parts = start_parts [OF i run nn f]
      define s' where "s' = (subscribe (OnRace (Suc (races s2))) (executing s2)
                 (s2\<lparr>races := Suc (races s2), race_pending := True\<rparr>))\<lparr>ctrl := AwaitRace\<rparr>"
      have "inv items limit s'"
      proof (rule inv_race [OF parts(1,2,3,4) f(6) _ _ lim])
        show "executing s2 \<noteq> []" by (simp add: f)
        show "length (executing s2) \<le> nat (max 1 limit)"
          using b_running [OF inv_parts(4) [OF i] run] by (simp add: f)
        show "started s' = started s2" "promise s' = promise s2" "executing s' = executing s2"
          "ctrl s' = AwaitRace" "races s' = Suc (races s2)" "race_pending s' = True"
          "all_waiting s' = all_waiting s2" "all_pending s' = all_pending s2"
          by (simp_all add: s'_def)
        show "reactions s' q =
          (if q \<in> set (executing s2) \<and> promise s2 q = None
           then reactions s2 q @ [OnRace (Suc (races s2)) q] else reactions s2 q)" for q
          by (simp add: s'_def reactions_subscribe)
        show "jobs s' = jobs s2 @ then_jobs (OnRace (Suc (races s2))) (executing s2) s2"
          by (simp add: s'_def jobs_subscribe)
      qed
      with adv lim show ?thesis by (simp add: s'_def)
    qed
  qed
qed

lemma inv_init: "inv items limit plimit_init"
  unfolding inv_def
proof (intro conjI)
  show "inv_wf items plimit_init" by (rule inv_wfI) (simp_all add: plimit_init_def)
  show "finally_first (races plimit_init) (set (executing plimit_init)) (jobs plimit_init)"
    by (simp add: plimit_init_def)
  show "inv_ctrl plimit_init" by (rule inv_ctrlI) (simp_all add: plimit_init_def)
  show "inv_bound limit plimit_init" by (rule inv_boundI) (simp_all add: plimit_init_def)
  show "inv_all items plimit_init" by (rule inv_allI) (simp_all add: plimit_init_def)
qed

lemma inv_step:
  assumes "inv items limit s" "step fn items (whole limit) ev s = Some s'"
  shows "inv items limit s'"
proof (cases ev)
  case Advance
  with assms(2) have "ctrl s = Running" "s' = advance fn items (whole limit) s"
    by (auto simp add: step_def split: if_splits)
  with inv_advance [OF assms(1)] show ?thesis by simp
next
  case (Settle p out)
  with assms(2) have "p < length (started s)" "promise s p = None" "s' = settle p out s"
    by (auto simp add: step_def split: if_splits)
  with inv_settle [OF assms(1)] show ?thesis by simp
next
  case RunJob
  with assms(2) obtain j js where "jobs s = j # js" "s' = run_job j (s\<lparr>jobs := js\<rparr>)"
    by (auto simp add: step_def split: list.splits if_splits)
  with inv_run_job [OF assms(1)] show ?thesis by simp
qed

lemma inv_run_events:
  "inv items limit s \<Longrightarrow> run_events fn items (whole limit) evs s = Some s' \<Longrightarrow> inv items limit s'"
proof (induction evs arbitrary: s)
  case Nil
  then show ?case by simp
next
  case (Cons ev evs)
  from Cons.prems(2) obtain s1 where s1: "step fn items (whole limit) ev s = Some s1"
    and rest: "run_events fn items (whole limit) evs s1 = Some s'"
    by (auto split: option.splits)
  from inv_step [OF Cons.prems(1) s1] rest show ?case by (rule Cons.IH)
qed

lemma reachable_inv: "reachable fn items (whole limit) s \<Longrightarrow> inv items limit s"
  unfolding reachable_def using inv_run_events [OF inv_init] by blast

lemma running_set: "set (running s) = {p. p < length (started s) \<and> promise s p = None}"
  by (auto simp add: running_def)

lemma distinct_running: "distinct (running s)"
  by (simp add: running_def)

lemma running_le_executing:
  assumes wf: "inv_wf items s"
  shows "length (running s) \<le> length (executing s)"
proof -
  have "set (running s) \<subseteq> set (executing s)"
    using wf_pending [OF wf] by (auto simp add: running_set)
  then have "card (set (running s)) \<le> card (set (executing s))"
    by (intro card_mono) simp_all
  then show ?thesis
    using wf_distinct [OF wf] by (simp add: distinct_card distinct_running)
qed

lemma waiting_full:
  assumes i: "inv items limit s" and w: "ctrl s = AwaitRace" "jobs s = []"
  shows "length (running s) = nat (max 1 limit)" and "race_pending s"
proof -
  note wf = inv_parts(1) [OF i] and c = inv_parts(3) [OF i] and b = inv_parts(4) [OF i]
  show rp: "race_pending s" using c_woken [OF c w(1)] w(2) by auto
  have full: "length (executing s) = nat (max 1 limit)"
    using b_wake [OF b rp] w(2) by auto
  have "set (executing s) \<subseteq> set (running s)"
  proof
    fix q assume q: "q \<in> set (executing s)"
    have "promise s q = None"
      using wf_settled [OF wf q] w(2) by (cases "promise s q") auto
    with wf_lt [OF wf q] show "q \<in> set (running s)" by (simp add: running_set)
  qed
  then have "card (set (executing s)) \<le> card (set (running s))"
    by (intro card_mono) simp_all
  then have "length (executing s) \<le> length (running s)"
    using wf_distinct [OF wf] by (simp add: distinct_card distinct_running)
  with running_le_executing [OF wf] full show "length (running s) = nat (max 1 limit)" by simp
qed

text \<open>Running the reactions of a promise that fulfilled while \<open>pLimit\<close> waits in the race, and
  then the continuation they schedule, brings \<open>pLimit\<close> back into its loop.\<close>

lemma drain_race:
  assumes "ctrl t = AwaitRace" "\<not> all_pending t"
    and "jobs t = map (\<lambda>r. React r Fulfilled) rs @ (if race_pending t then [] else [Resume Fulfilled])"
    and "race_pending t \<Longrightarrow> \<exists>q. OnRace (races t) q \<in> set rs"
  shows "\<exists>t'. run_events fn items (whole limit) (replicate (Suc (length rs)) RunJob) t = Some t' \<and> ctrl t' = Running"
  using assms
proof (induction rs arbitrary: t)
  case Nil
  then have "jobs t = [Resume Fulfilled]" by auto
  with Nil(1) show ?case by (simp add: step_def)
next
  case (Cons r rs)
  define t1 where "t1 = run_job (React r Fulfilled)
      (t\<lparr>jobs := map (\<lambda>r. React r Fulfilled) rs @ (if race_pending t then [] else [Resume Fulfilled])\<rparr>)"
  have step: "step fn items (whole limit) RunJob t = Some t1"
    using Cons.prems(1,3) by (simp add: step_def t1_def)
  have t1: "ctrl t1 = AwaitRace \<and> \<not> all_pending t1 \<and>
      jobs t1 = map (\<lambda>r. React r Fulfilled) rs @ (if race_pending t1 then [] else [Resume Fulfilled]) \<and>
      (race_pending t1 \<longrightarrow> (\<exists>q. OnRace (races t1) q \<in> set rs))"
  proof (cases r)
    case (OnFinally p)
    with Cons.prems show ?thesis by (auto simp add: t1_def)
  next
    case (OnRace m q)
    with Cons.prems show ?thesis by (auto simp add: t1_def)
  next
    case (OnAll q)
    with Cons.prems show ?thesis by (auto simp add: t1_def)
  qed
  then have "\<exists>t'. run_events fn items (whole limit) (replicate (Suc (length rs)) RunJob) t1 = Some t' \<and>
      ctrl t' = Running"
    by (intro Cons.IH) auto
  with step show ?case by simp
qed

lemma slot_freed:
  assumes i: "inv items limit s" and w: "ctrl s = AwaitRace" "jobs s = []"
    and p: "p \<in> set (running s)"
  shows "\<exists>s'. run_events fn items (whole limit)
           (Settle p Fulfilled # replicate (Suc (length (reactions s p))) RunJob) s = Some s' \<and>
         ctrl s' = Running"
proof -
  note wf = inv_parts(1) [OF i] and c = inv_parts(3) [OF i] and b = inv_parts(4) [OF i]
  from p have pend: "p < length (started s)" "promise s p = None" by (simp_all add: running_set)
  have rp: "race_pending s" by (rule waiting_full(2) [OF i w])
  have "p \<in> set (executing s)" using wf_pending [OF wf pend] by simp
  with b_subscribed [OF b rp, of p] w(2) have sub: "OnRace (races s) p \<in> set (reactions s p)"
    by auto
  have step: "step fn items (whole limit) (Settle p Fulfilled) s = Some (settle p Fulfilled s)"
    using w(1) pend by (simp add: step_def)
  have "\<exists>t'. run_events fn items (whole limit) (replicate (Suc (length (reactions s p))) RunJob)
      (settle p Fulfilled s) = Some t' \<and> ctrl t' = Running"
  proof (rule drain_race)
    show "ctrl (settle p Fulfilled s) = AwaitRace" using w(1) by simp
    show "\<not> all_pending (settle p Fulfilled s)" using c_all [OF c] w(1) by auto
    show "jobs (settle p Fulfilled s) = map (\<lambda>r. React r Fulfilled) (reactions s p) @
        (if race_pending (settle p Fulfilled s) then [] else [Resume Fulfilled])"
      using rp w(2) by simp
    show "\<exists>q. OnRace (races (settle p Fulfilled s)) q \<in> set (reactions s p)"
      using sub by auto
  qed
  with step show ?thesis by simp
qed




section \<open>Limits that are not whole numbers\<close>

lemma size_ge_threshold: "k \<le> n \<Longrightarrow> size_ge k lmt \<longleftrightarrow> threshold n lmt \<le> int k"
  by (cases lmt) (auto simp add: ceiling_le_iff)


lemma executing_le_started:
  assumes wf: "inv_wf items s"
  shows "length (executing s) \<le> length (started s)"
  using wf_distinct [OF wf] wf_lt [OF wf] by (rule distinct_length_le)

lemma advance_threshold:
  assumes wf: "inv_wf items s"
  shows "advance fn items lmt s = advance fn items (whole (threshold (length items) lmt)) s"
proof (cases "length (started s) < length items")
  case True
  with executing_le_started [OF wf] have "Suc (length (executing s)) \<le> length items" by simp
  then have "size_ge (Suc (length (executing s))) lmt \<longleftrightarrow>
      threshold (length items) lmt \<le> int (Suc (length (executing s)))"
    by (rule size_ge_threshold)
  then show ?thesis
    by (simp add: advance_def Let_def split: call_result.splits)
next
  case False
  then show ?thesis by (simp add: advance_def)
qed

lemma step_threshold:
  assumes wf: "inv_wf items s"
  shows "step fn items lmt ev s = step fn items (whole (threshold (length items) lmt)) ev s"
  using advance_threshold [OF wf, of fn lmt] by (simp add: step_def split: event.splits)

lemma run_events_threshold:
  assumes "inv items (threshold (length items) lmt) s"
  shows "run_events fn items lmt evs s = run_events fn items (whole (threshold (length items) lmt)) evs s"
  using assms
proof (induction evs arbitrary: s)
  case Nil
  show ?case by simp
next
  case (Cons ev evs)
  note st = step_threshold [OF inv_parts(1) [OF Cons.prems], of fn lmt ev]
  show ?case
  proof (cases "step fn items (whole (threshold (length items) lmt)) ev s")
    case None
    with st show ?thesis by simp
  next
    case (Some s1)
    from inv_step [OF Cons.prems Some] have "inv items (threshold (length items) lmt) s1" .
    from Cons.IH [OF this] st Some show ?thesis by simp
  qed
qed

lemma reachable_threshold:
  assumes "reachable fn items lmt s"
  shows "reachable fn items (whole (threshold (length items) lmt)) s"
proof -
  from assms obtain evs where "run_events fn items lmt evs plimit_init = Some s"
    unfolding reachable_def by blast
  with run_events_threshold [OF inv_init, where fn = fn and evs = evs and items = items and lmt = lmt]
  have "run_events fn items (whole (threshold (length items) lmt)) evs plimit_init = Some s"
    by simp
  then show ?thesis unfolding reachable_def by blast
qed

lemma reachable_inv_threshold:
  "reachable fn items lmt s \<Longrightarrow> inv items (threshold (length items) lmt) s"
  by (rule reachable_inv [OF reachable_threshold])








lemma started_advance:
  "started (advance fn items limit s) =
     (if length (started s) < length items \<and> fn (items ! length (started s)) \<noteq> Throws
      then started s @ [items ! length (started s)] else started s)"
  by (simp add: advance_def Let_def split: call_result.splits)

lemma promise_advance:
  "promise (advance fn items limit s) =
     (if length (started s) < length items
      then (case fn (items ! length (started s)) of
              Throws \<Rightarrow> promise s
            | Returns out \<Rightarrow> (promise s)(length (started s) := out))
      else promise s)"
  by (simp add: advance_def Let_def split: call_result.splits)


section \<open>Bounded concurrency (C2)\<close>









section \<open>crawlBatch collects one result for every task\<close>

lemma crawl_step_plimit:
  assumes "crawl_step e urls ua conc ev (s, out) = Some (s', out')"
  shows "step crawl_fn urls (Math_max (Finite 1) conc) ev s = Some s'"
    and "\<And>p. ev \<noteq> Settle p Rejected"
    and "out' = (case ev of Settle p x \<Rightarrow> out @ [snd (crawl_task e ua (urls ! p))] | _ \<Rightarrow> out)"
proof -
  from assms obtain s1 where s1: "step crawl_fn urls (Math_max (Finite 1) conc) ev s = Some s1"
    by (auto simp add: crawl_step_def split: option.splits)
  with assms show "step crawl_fn urls (Math_max (Finite 1) conc) ev s = Some s'"
    by (auto simp add: crawl_step_def split: event.splits settled.splits)
  from s1 assms show "ev \<noteq> Settle p Rejected" for p
    by (auto simp add: crawl_step_def split: event.splits settled.splits)
  from s1 assms show "out' = (case ev of Settle p x \<Rightarrow> out @ [snd (crawl_task e ua (urls ! p))] | _ \<Rightarrow> out)"
    by (auto simp add: crawl_step_def split: event.splits settled.splits)
qed

lemma crawl_run_plimit:
  "crawl_run e urls ua conc evs (s, out) = Some (s', out') \<Longrightarrow>
   run_events crawl_fn urls (Math_max (Finite 1) conc) evs s = Some s'"
proof (induction evs arbitrary: s out)
  case Nil
  then show ?case by simp
next
  case (Cons ev evs)
  from Cons.prems obtain s1 out1 where 1: "crawl_step e urls ua conc ev (s, out) = Some (s1, out1)"
    and 2: "crawl_run e urls ua conc evs (s1, out1) = Some (s', out')"
    by (auto split: option.splits)
  from crawl_step_plimit(1) [OF 1] Cons.IH [OF 2] show ?case by simp
qed

lemma started_run_job [simp]: "started (run_job j s) = started s"
  and promise_run_job [simp]: "promise (run_job j s) = promise s"
  by (induction j s rule: run_job.induct) simp_all

text \<open>The results collected so far.\<close>

lemma results_of_step:
  assumes r: "results_of e urls ua s out"
    and st: "crawl_step e urls ua conc ev (s, out) = Some (s', out')"
  shows "results_of e urls ua s' out'"
proof -
  note step = crawl_step_plimit [OF st]
  from r obtain order where o: "distinct order"
    "set order = {p. p < length (started s) \<and> promise s p \<noteq> None}"
    "out = map (\<lambda>p. snd (crawl_task e ua (urls ! p))) order"
    unfolding results_of_def by blast
  show ?thesis
  proof (cases ev)
    case Advance
    with step(1) have s': "s' = advance crawl_fn urls (Math_max (Finite 1) conc) s"
      by (auto simp add: step_def split: if_splits)
    have "{p. p < length (started s') \<and> promise s' p \<noteq> None} =
        {p. p < length (started s) \<and> promise s p \<noteq> None}"
      by (auto simp add: s' started_advance promise_advance crawl_fn_def less_Suc_eq)
    with o step(3) Advance show ?thesis
      unfolding results_of_def by auto
  next
    case RunJob
    with step(1) obtain j js where "s' = run_job j (s\<lparr>jobs := js\<rparr>)"
      by (auto simp add: step_def split: list.splits if_splits)
    then have "{p. p < length (started s') \<and> promise s' p \<noteq> None} =
        {p. p < length (started s) \<and> promise s p \<noteq> None}"
      by simp
    with o step(3) RunJob show ?thesis
      unfolding results_of_def by auto
  next
    case (Settle p x)
    with step(1) have p: "p < length (started s)" "promise s p = None" and s': "s' = settle p x s"
      by (auto simp add: step_def split: if_splits)
    have set': "{q. q < length (started s') \<and> promise s' q \<noteq> None} =
        insert p {q. q < length (started s) \<and> promise s q \<noteq> None}"
      using p by (auto simp add: s')
    from p o(2) have "p \<notin> set order" by simp
    with o(1) have "distinct (order @ [p])" by simp
    moreover have "set (order @ [p]) = {q. q < length (started s') \<and> promise s' q \<noteq> None}"
      using o(2) set' by simp
    moreover have "out' = map (\<lambda>p. snd (crawl_task e ua (urls ! p))) (order @ [p])"
      using step(3) Settle o(3) by simp
    ultimately show ?thesis unfolding results_of_def by blast
  qed
qed

lemma results_of_run:
  "results_of e urls ua s out \<Longrightarrow> crawl_run e urls ua conc evs (s, out) = Some (s', out') \<Longrightarrow>
   results_of e urls ua s' out'"
proof (induction evs arbitrary: s out)
  case Nil
  then show ?case by simp
next
  case (Cons ev evs)
  from Cons.prems(2) obtain s1 out1 where 1: "crawl_step e urls ua conc ev (s, out) = Some (s1, out1)"
    and 2: "crawl_run e urls ua conc evs (s1, out1) = Some (s', out')"
    by (auto split: option.splits)
  from results_of_step [OF Cons.prems(1) 1] 2 show ?case by (rule Cons.IH)
qed

lemma results_of_init: "results_of e urls ua plimit_init []"
  unfolding results_of_def by (intro exI [of _ "[]"]) (simp add: plimit_init_def)

lemma map_nth_upt: "map (\<lambda>p. g (xs ! p)) [0 ..< length xs] = map g xs"
proof -
  have "map g (map (\<lambda>p. xs ! p) [0 ..< length xs]) = map g xs"
    by (simp only: map_nth)
  then show ?thesis by (simp only: map_map o_def)
qed

lemma crawlBatch_results:
  assumes "crawlBatch e urls ua conc schedule = Some results"
  shows "mset results = mset (map (\<lambda>u. snd (crawl_task e ua u)) urls)"
proof -
  from assms obtain s where run: "crawl_run e urls ua conc schedule (plimit_init, []) = Some (s, results)"
    and ret: "ctrl s = Returned"
    by (auto simp add: crawlBatch_def split: option.splits if_splits)
  from crawl_run_plimit [OF run] have "reachable crawl_fn urls (Math_max (Finite 1) conc) s"
    unfolding reachable_def by blast
  then have i: "inv urls (crawl_limit urls conc) s" by (rule reachable_inv_threshold)
  note a = inv_parts(5) [OF i]
  from results_of_run [OF results_of_init run] obtain order where o: "distinct order"
    "set order = {p. p < length (started s) \<and> promise s p \<noteq> None}"
    "results = map (\<lambda>p. snd (crawl_task e ua (urls ! p))) order"
    unfolding results_of_def by blast
  have seteq: "set order = set [0 ..< length urls]"
    using o(2) a_returned [OF a ret] a_started [OF a] ret by auto
  have d: "distinct [0 ..< length urls]" by simp
  have perm: "mset order = mset [0 ..< length urls]"
    using set_eq_iff_mset_eq_distinct [OF o(1) d] seteq by blast
  have "image_mset (\<lambda>p. snd (crawl_task e ua (urls ! p))) (mset order) =
      image_mset (\<lambda>p. snd (crawl_task e ua (urls ! p))) (mset [0 ..< length urls])"
    by (rule arg_cong [OF perm])
  then have "mset (map (\<lambda>p. snd (crawl_task e ua (urls ! p))) order) =
      mset (map (\<lambda>p. snd (crawl_task e ua (urls ! p))) [0 ..< length urls])"
    by (simp only: mset_map)
  with map_nth_upt [of "\<lambda>u. snd (crawl_task e ua u)" urls] show ?thesis
    unfolding o(3) by (simp only:)
qed

text \<open>No task of \<open>crawlBatch\<close> rejects, so \<open>pLimit\<close> never throws.\<close>

lemma unrejectedI:
  assumes "\<And>p. promise s p \<noteq> Some Rejected" "Resume Rejected \<notin> set (jobs s)" "ctrl s \<noteq> Threw"
  shows "unrejected s"
  unfolding unrejected_def using assms by simp

lemma unrejected_promise: "unrejected s \<Longrightarrow> promise s p \<noteq> Some Rejected"
  and unrejected_jobs: "unrejected s \<Longrightarrow> Resume Rejected \<notin> set (jobs s)"
  and unrejected_ctrl: "unrejected s \<Longrightarrow> ctrl s \<noteq> Threw"
  unfolding unrejected_def by simp_all

lemma unrejected_init: "unrejected plimit_init"
  by (rule unrejectedI) (simp_all add: plimit_init_def)

lemma react_fulfilled:
  assumes wf: "inv_wf items s" and u: "unrejected s" and j: "React r out \<in> set (jobs s)"
  shows "out = Fulfilled"
proof -
  from wf_job [OF wf j] have "promise s (about r) = Some out" by simp
  with unrejected_promise [OF u, of "about r"] show ?thesis by (cases out) auto
qed

lemma unrejected_advance:
  assumes u: "unrejected s" and r: "ctrl s = Running"
  shows "unrejected (advance crawl_fn items (whole limit) s)"
proof (rule unrejectedI)
  show "promise (advance crawl_fn items (whole limit) s) p \<noteq> Some Rejected" for p
    using unrejected_promise [OF u] by (simp add: promise_advance crawl_fn_def)
  have "Resume out \<in> set (jobs (advance crawl_fn items (whole limit) s)) \<Longrightarrow>
      out = Fulfilled \<or> Resume out \<in> set (jobs s)" for out
    by (auto simp add: advance_def Let_def crawl_fn_def jobs_subscribe then_jobs_mem split: if_splits)
  with unrejected_jobs [OF u] show "Resume Rejected \<notin> set (jobs (advance crawl_fn items (whole limit) s))"
    by blast
  show "ctrl (advance crawl_fn items (whole limit) s) \<noteq> Threw"
    using r by (simp add: advance_def Let_def crawl_fn_def)
qed

lemma unrejected_run_job:
  assumes wf: "inv_wf items s" and u: "unrejected s" and j: "jobs s = j # js"
  shows "unrejected (run_job j (s\<lparr>jobs := js\<rparr>))"
proof (cases j)
  case (Resume out)
  from unrejected_jobs [OF u] j Resume have out: "out = Fulfilled" by (cases out) auto
  show ?thesis
  proof (rule unrejectedI)
    show "promise (run_job j (s\<lparr>jobs := js\<rparr>)) p \<noteq> Some Rejected" for p
      using unrejected_promise [OF u] by simp
    show "Resume Rejected \<notin> set (jobs (run_job j (s\<lparr>jobs := js\<rparr>)))"
      using unrejected_jobs [OF u] j by (simp add: Resume out)
    show "ctrl (run_job j (s\<lparr>jobs := js\<rparr>)) \<noteq> Threw"
      using unrejected_ctrl [OF u] by (simp add: Resume out)
  qed
next
  case (React r out')
  from react_fulfilled [OF wf u, of r out'] j React have out: "out' = Fulfilled" by simp
  show ?thesis
  proof (rule unrejectedI)
    show "promise (run_job j (s\<lparr>jobs := js\<rparr>)) p \<noteq> Some Rejected" for p
      using unrejected_promise [OF u] by simp
    show "Resume Rejected \<notin> set (jobs (run_job j (s\<lparr>jobs := js\<rparr>)))"
      using unrejected_jobs [OF u] j by (cases r) (simp_all add: React out)
    show "ctrl (run_job j (s\<lparr>jobs := js\<rparr>)) \<noteq> Threw"
      using unrejected_ctrl [OF u] by (cases r) (simp_all add: React out)
  qed
qed

lemma unrejected_step:
  assumes wf: "inv_wf items s" and u: "unrejected s"
    and st: "step crawl_fn items (whole limit) ev s = Some s'" and ev: "\<And>p. ev \<noteq> Settle p Rejected"
  shows "unrejected s'"
proof (cases ev)
  case Advance
  with st have "ctrl s = Running" "s' = advance crawl_fn items (whole limit) s"
    by (auto simp add: step_def split: if_splits)
  with unrejected_advance [OF u] show ?thesis by simp
next
  case (Settle p out)
  with ev have out: "out = Fulfilled" by (cases out) auto
  from st Settle have s': "s' = settle p Fulfilled s"
    by (auto simp add: step_def out split: if_splits)
  show ?thesis
    unfolding s'
  proof (rule unrejectedI)
    show "promise (settle p Fulfilled s) q \<noteq> Some Rejected" for q
      using unrejected_promise [OF u, of q] by simp
    show "Resume Rejected \<notin> set (jobs (settle p Fulfilled s))"
      using unrejected_jobs [OF u] by auto
    show "ctrl (settle p Fulfilled s) \<noteq> Threw"
      using unrejected_ctrl [OF u] by simp
  qed
next
  case RunJob
  with st obtain j js where "jobs s = j # js" "s' = run_job j (s\<lparr>jobs := js\<rparr>)"
    by (auto simp add: step_def split: list.splits if_splits)
  with unrejected_run_job [OF wf u] show ?thesis by simp
qed

lemma crawl_run_unrejected:
  "inv urls (crawl_limit urls conc) s \<Longrightarrow> unrejected s \<Longrightarrow>
   crawl_run e urls ua conc evs (s, out) = Some (s', out') \<Longrightarrow> unrejected s'"
proof (induction evs arbitrary: s out)
  case Nil
  then show ?case by simp
next
  case (Cons ev evs)
  from Cons.prems(3) obtain s1 out1 where 1: "crawl_step e urls ua conc ev (s, out) = Some (s1, out1)"
    and 2: "crawl_run e urls ua conc evs (s1, out1) = Some (s', out')"
    by (auto split: option.splits)
  note st = crawl_step_plimit [OF 1]
  note wf = inv_parts(1) [OF Cons.prems(1)]
  have whole: "step crawl_fn urls (whole (crawl_limit urls conc)) ev s = Some s1"
    using st(1) by (simp only: step_threshold [OF wf, symmetric])
  have "inv urls (crawl_limit urls conc) s1" by (rule inv_step [OF Cons.prems(1) whole])
  moreover have "unrejected s1"
    by (rule unrejected_step [OF wf Cons.prems(2) whole st(2)])
  ultimately show ?case using 2 by (rule Cons.IH)
qed


section \<open>The loop of QueueEnqueuer sends the chunks in order\<close>

lemma chunks_length: "length (chunks_of urls) = (length urls + 999) div 1000"
  by (simp add: chunks_of_def)

lemma chunk_lt: "k < length (chunks_of urls) \<longleftrightarrow> 1000 * k < length urls"
  unfolding chunks_length by arith

lemma drop_eq_Cons:
  assumes "drop k xs = y # ys"
  shows "k < length xs" and "y = xs ! k" and "drop (Suc k) xs = ys"
proof -
  show k: "k < length xs" using assms by (cases "k < length xs") auto
  from Cons_nth_drop_Suc [OF k] assms show "y = xs ! k" and "drop (Suc k) xs = ys" by simp_all
qed

lemma chunks_nth:
  "k < length (chunks_of urls) \<Longrightarrow>
   chunks_of urls ! k = map (\<lambda>u. \<lparr>body = u\<rparr>) (take 1000 (drop (1000 * k) urls))"
  by (simp add: chunks_of_def)

lemma send_chunks_done:
  "\<not> i < length urls \<Longrightarrow> send_chunks sendBatch urls i q calls = (Inr (length urls), q, calls)"
  by simp

lemma send_chunks_step:
  "i < length urls \<Longrightarrow>
   send_chunks sendBatch urls i q calls =
     (case sendBatch q (map (\<lambda>u. \<lparr>body = u\<rparr>) (take 1000 (drop i urls))) of
        (True, q') \<Rightarrow> send_chunks sendBatch urls (i + 1000) q'
                        (calls @ [(map (\<lambda>u. \<lparr>body = u\<rparr>) (take 1000 (drop i urls)), True)])
      | (False, q') \<Rightarrow> (Inl SendBatchRejected, q',
                        calls @ [(map (\<lambda>u. \<lparr>body = u\<rparr>) (take 1000 (drop i urls)), False)]))"
  by (subst send_chunks.simps) (simp add: Let_def)

declare send_chunks.simps [simp del]

lemma send_chunks_accepted:
  "accept_all sendBatch q (drop k (chunks_of urls)) = Some q' \<Longrightarrow>
   send_chunks sendBatch urls (1000 * k) q calls =
     (Inr (length urls), q', calls @ map (\<lambda>b. (b, True)) (drop k (chunks_of urls)))"
proof (induction "length (chunks_of urls) - k" arbitrary: k q calls)
  case 0
  then have "\<not> 1000 * k < length urls" by (simp add: chunk_lt [symmetric])
  with 0 show ?case by (simp add: send_chunks_done)
next
  case (Suc d)
  then have k: "k < length (chunks_of urls)" by simp
  then have lt: "1000 * k < length urls" by (simp add: chunk_lt)
  let ?b = "map (\<lambda>u. \<lparr>body = u\<rparr>) (take 1000 (drop (1000 * k) urls))"
  have split: "drop k (chunks_of urls) = ?b # drop (Suc k) (chunks_of urls)"
    using k by (simp add: Cons_nth_drop_Suc [symmetric] chunks_nth)
  from Suc.prems obtain q1 where q1: "sendBatch q ?b = (True, q1)"
    and rest: "accept_all sendBatch q1 (drop (Suc k) (chunks_of urls)) = Some q'"
    unfolding split by (auto split: prod.splits bool.splits)
  have "d = length (chunks_of urls) - Suc k" using Suc(2) by simp
  from Suc(1) [OF this rest, of "calls @ [(?b, True)]"] q1 lt show ?case
    by (simp add: send_chunks_step split add.commute)
qed

lemma send_chunks_rejected:
  "drop k (chunks_of urls) = pre @ c # post \<Longrightarrow> accept_all sendBatch q pre = Some qk \<Longrightarrow>
   sendBatch qk c = (False, q') \<Longrightarrow>
   send_chunks sendBatch urls (1000 * k) q calls =
     (Inl SendBatchRejected, q', calls @ map (\<lambda>b. (b, True)) pre @ [(c, False)])"
proof (induction pre arbitrary: k q calls)
  case Nil
  then have k: "k < length (chunks_of urls)"
    using drop_eq_Cons(1) [of k "chunks_of urls" c post] by simp
  then have lt: "1000 * k < length urls" by (simp add: chunk_lt)
  have "c = map (\<lambda>u. \<lparr>body = u\<rparr>) (take 1000 (drop (1000 * k) urls))"
    using Nil(1) k drop_eq_Cons(2) [of k "chunks_of urls" c post] by (simp add: chunks_nth)
  with Nil lt show ?case by (simp add: send_chunks_step)
next
  case (Cons b pre)
  then have k: "k < length (chunks_of urls)"
    using drop_eq_Cons(1) [of k "chunks_of urls" b "pre @ c # post"] by simp
  then have lt: "1000 * k < length urls" by (simp add: chunk_lt)
  have b: "b = map (\<lambda>u. \<lparr>body = u\<rparr>) (take 1000 (drop (1000 * k) urls))"
    using Cons(2) k drop_eq_Cons(2) [of k "chunks_of urls" b "pre @ c # post"] by (simp add: chunks_nth)
  have rest: "drop (Suc k) (chunks_of urls) = pre @ c # post"
    using Cons(2) drop_eq_Cons(3) [of k "chunks_of urls" b "pre @ c # post"] by simp
  from Cons(3) obtain q1 where q1: "sendBatch q b = (True, q1)"
    and acc: "accept_all sendBatch q1 pre = Some qk"
    by (auto split: prod.splits bool.splits)
  from Cons.IH [OF rest acc Cons(4), of "calls @ [(b, True)]"] q1 lt b show ?case
    by (simp add: send_chunks_step add.commute)
qed

lemma concat_slices: "concat (map (\<lambda>k. take c (drop (c * k) xs)) [0 ..< m]) = take (c * m) xs"
proof (induction m)
  case 0
  show ?case by simp
next
  case (Suc m)
  have "take (c * m + c) xs = take (c * m) xs @ take c (drop (c * m) xs)"
    by (rule take_add)
  with Suc show ?case by (simp add: add.commute)
qed

lemma concat_chunks: "concat (chunks_of urls) = map (\<lambda>u. \<lparr>body = u\<rparr>) urls"
proof -
  have "chunks_of urls =
      map (map (\<lambda>u. \<lparr>body = u\<rparr>))
        (map (\<lambda>k. take 1000 (drop (1000 * k) urls)) [0 ..< (length urls + 999) div 1000])"
    by (simp add: chunks_of_def)
  then have "concat (chunks_of urls) =
      map (\<lambda>u. \<lparr>body = u\<rparr>) (take (1000 * ((length urls + 999) div 1000)) urls)"
    by (simp only: map_concat [symmetric] concat_slices)
  moreover have "length urls \<le> 1000 * ((length urls + 999) div 1000)" by arith
  ultimately show ?thesis by simp
qed

lemma chunk_sizes:
  assumes "b \<in> set (chunks_of urls)"
  shows "0 < length b \<and> length b \<le> 1000"
proof -
  from assms obtain k where k: "k < length (chunks_of urls)" and b: "b = chunks_of urls ! k"
    by (auto simp add: in_set_conv_nth)
  from k have "1000 * k < length urls" by (simp add: chunk_lt)
  with b k show ?thesis by (simp add: chunks_nth)
qed

lemma chunk_full:
  assumes "Suc k < length (chunks_of urls)"
  shows "length (chunks_of urls ! k) = 1000"
proof -
  from assms have "1000 * Suc k < length urls" by (simp only: chunk_lt)
  moreover from assms have "k < length (chunks_of urls)" by simp
  ultimately show ?thesis by (simp add: chunks_nth)
qed

lemma QueueEnqueuer_accepted:
  assumes "accept_all sendBatch q (chunks_of urls) = Some q'"
  shows "QueueEnqueuer_enqueueMany sendBatch urls q =
    (Inr (length urls), q', map (\<lambda>b. (b, True)) (chunks_of urls))"
  using send_chunks_accepted [of sendBatch q 0 urls q' "[]"] assms
  by (simp add: QueueEnqueuer_enqueueMany_def)

lemma QueueEnqueuer_rejected:
  assumes "chunks_of urls = pre @ c # post" "accept_all sendBatch q pre = Some qk"
    "sendBatch qk c = (False, q')"
  shows "QueueEnqueuer_enqueueMany sendBatch urls q =
    (Inl SendBatchRejected, q', map (\<lambda>b. (b, True)) pre @ [(c, False)])"
  using send_chunks_rejected [of 0 urls pre c post sendBatch q qk q' "[]"] assms
  by (simp add: QueueEnqueuer_enqueueMany_def)

lemma accept_all_append:
  "accept_all sendBatch q (bs @ cs) =
     (case accept_all sendBatch q bs of None \<Rightarrow> None | Some q1 \<Rightarrow> accept_all sendBatch q1 cs)"
  by (induction bs arbitrary: q) (auto split: prod.splits bool.splits)


section \<open>What the results of a batch are\<close>

lemma crawl_task_url [simp]: "url (snd (crawl_task e userAgent u)) = u"
  by (simp add: crawl_task_def split: prod.splits option.splits)

lemma count_ok:
  assumes "mset results = mset (map f urls)"
  shows "length (filter ok results) = length (filter (\<lambda>u. ok (f u)) urls)"
proof -
  have "length (filter ok results) = size (filter_mset ok (mset results))"
    by (simp only: mset_filter [symmetric] size_mset)
  also have "\<dots> = size (filter_mset ok (mset (map f urls)))"
    by (simp only: assms)
  also have "\<dots> = length (filter ok (map f urls))"
    by (simp only: mset_filter [symmetric] size_mset)
  also have "\<dots> = length (filter (\<lambda>u. ok (f u)) urls)"
    by (simp add: filter_map o_def)
  finally show ?thesis .
qed

lemma crawlBatch_length:
  assumes "crawlBatch e urls ua conc schedule = Some results"
  shows "length results = length urls"
  using mset_eq_length [OF crawlBatch_results [OF assms]] by simp

lemma crawlBatch_urls:
  assumes "crawlBatch e urls ua conc schedule = Some results"
  shows "mset (map url results) = mset urls"
proof -
  have "image_mset url (mset results) =
      image_mset url (mset (map (\<lambda>u. snd (crawl_task e ua u)) urls))"
    by (simp only: crawlBatch_results [OF assms])
  then show ?thesis by (simp add: multiset.map_comp o_def)
qed

lemma site_task_one:
  "crawl_task site_env ''bot'' ''https://site.example/1'' =
     ([''https://site.example/robots.txt'', ''https://site.example/1''],
      \<lparr>ok = True, status = 200, url = ''https://site.example/1''\<rparr>)"
  by code_simp

lemma site_task_private:
  "crawl_task site_env ''bot'' ''https://site.example/private/x'' =
     ([''https://site.example/robots.txt''],
      \<lparr>ok = True, status = 999, url = ''https://site.example/private/x''\<rparr>)"
  by code_simp

lemma site_task_down:
  "crawl_task site_env ''bot'' ''https://down.example/p'' =
     ([''https://down.example/robots.txt'', ''https://down.example/p''],
      \<lparr>ok = False, status = 0, url = ''https://down.example/p''\<rparr>)"
  by code_simp

lemma site_task_three:
  "crawl_task site_env ''bot'' ''https://site.example/3'' =
     ([''https://site.example/robots.txt'', ''https://site.example/3''],
      \<lparr>ok = False, status = 500, url = ''https://site.example/3''\<rparr>)"
  by code_simp

lemma crawl_run_finished:
  assumes "run_events crawl_fn urls (Math_max (Finite 1) conc) evs s = Some s'"
    and "\<And>p. Settle p Rejected \<notin> set evs"
  shows "crawl_run e urls ua conc evs (s, out) =
    Some (s', out @ map (\<lambda>p. snd (crawl_task e ua (urls ! p))) (finished evs))"
  using assms
proof (induction evs arbitrary: s out)
  case Nil
  then show ?case by simp
next
  case (Cons ev evs)
  from Cons.prems(1) obtain s1 where s1: "step crawl_fn urls (Math_max (Finite 1) conc) ev s = Some s1"
    and rest: "run_events crawl_fn urls (Math_max (Finite 1) conc) evs s1 = Some s'"
    by (auto split: option.splits)
  have clean: "Settle p Rejected \<notin> set evs" for p using Cons.prems(2) [of p] by simp
  have ev: "ev \<noteq> Settle p Rejected" for p using Cons.prems(2) [of p] by auto
  note IH = Cons.IH [OF rest clean]
  show ?case
  proof (cases ev)
    case Advance
    with s1 IH [of out] show ?thesis by (simp add: crawl_step_def)
  next
    case RunJob
    with s1 IH [of out] show ?thesis by (simp add: crawl_step_def)
  next
    case (Settle p x)
    with ev have x: "x = Fulfilled" by (cases x) auto
    from s1 IH [of "out @ [snd (crawl_task e ua (urls ! p))]"] show ?thesis
      by (simp add: crawl_step_def Settle x)
  qed
qed

lemma batch_plimit:
  "run_events crawl_fn batch_urls (Finite 3) batch_schedule plimit_init \<noteq> None"
  "ctrl (the (run_events crawl_fn batch_urls (Finite 3) batch_schedule plimit_init)) = Returned"
  by code_simp+

lemma batch_run:
  "crawl_run site_env batch_urls ''bot'' (Finite 3) batch_schedule (plimit_init, []) =
     Some (the (run_events crawl_fn batch_urls (Finite 3) batch_schedule plimit_init), batch_results)"
proof -
  from batch_plimit(1)
  have "run_events crawl_fn batch_urls (Math_max (Finite 1) (Finite 3)) batch_schedule plimit_init =
      Some (the (run_events crawl_fn batch_urls (Finite 3) batch_schedule plimit_init))"
    by auto
  moreover have "Settle p Rejected \<notin> set batch_schedule" for p
    by (simp add: batch_schedule_def)
  ultimately have "crawl_run site_env batch_urls ''bot'' (Finite 3) batch_schedule (plimit_init, []) =
      Some (the (run_events crawl_fn batch_urls (Finite 3) batch_schedule plimit_init),
            [] @ map (\<lambda>p. snd (crawl_task site_env ''bot'' (batch_urls ! p))) (finished batch_schedule))"
    by (rule crawl_run_finished)
  moreover have "map (\<lambda>p. snd (crawl_task site_env ''bot'' (batch_urls ! p))) (finished batch_schedule) =
      batch_results"
    by (simp add: batch_schedule_def batch_urls_def batch_results_def
        site_task_one site_task_private site_task_down site_task_three)
  ultimately show ?thesis by simp
qed

lemma batch_crawl: "crawlBatch site_env batch_urls ''bot'' (Finite 3) batch_schedule = Some batch_results"
  by (simp add: crawlBatch_def batch_run batch_plimit(2))

lemma many_chunks:
  "chunks_of many_urls =
     [replicate 1000 \<lparr>body = ''https://site.example/1''\<rparr>,
      replicate 1000 \<lparr>body = ''https://site.example/1''\<rparr>,
      replicate 500 \<lparr>body = ''https://site.example/1''\<rparr>]"
proof -
  have "[0 ..< (length many_urls + 999) div 1000] = [0, 1, 2]"
    by (simp add: many_urls_def upt_rec)
  then show ?thesis
    by (simp add: chunks_of_def) (simp add: many_urls_def)
qed

section \<open>The batch can always run to its end\<close>

lemma inv_liveI:
  assumes "ctrl s = AwaitAll \<Longrightarrow> \<not> all_pending s \<Longrightarrow> \<exists>out. Resume out \<in> set (jobs s)"
    and "all_pending s \<Longrightarrow> all_waiting s \<noteq> []"
    and "\<And>q. all_pending s \<Longrightarrow> q \<in> set (all_waiting s) \<Longrightarrow>
           OnAll q \<in> set (reactions s q) \<or> (\<exists>out. React (OnAll q) out \<in> set (jobs s))"
  shows "inv_live s"
proof -
  have "\<forall>q \<in> set (all_waiting s). all_pending s \<longrightarrow>
      OnAll q \<in> set (reactions s q) \<or> (\<exists>out. React (OnAll q) out \<in> set (jobs s))"
    using assms(3) by blast
  with assms(1,2) show ?thesis unfolding inv_live_def by blast
qed

lemma live_woken: "inv_live s \<Longrightarrow> ctrl s = AwaitAll \<Longrightarrow> \<not> all_pending s \<Longrightarrow>
    \<exists>out. Resume out \<in> set (jobs s)"
  and live_nonempty: "inv_live s \<Longrightarrow> all_pending s \<Longrightarrow> all_waiting s \<noteq> []"
  and live_waiting: "inv_live s \<Longrightarrow> all_pending s \<Longrightarrow> q \<in> set (all_waiting s) \<Longrightarrow>
    OnAll q \<in> set (reactions s q) \<or> (\<exists>out. React (OnAll q) out \<in> set (jobs s))"
  unfolding inv_live_def by blast+

lemma live_init: "inv_live plimit_init"
  by (rule inv_liveI) (simp_all add: plimit_init_def)

lemma live_settle:
  assumes l: "inv_live s"
  shows "inv_live (settle p out s)"
proof (rule inv_liveI)
  assume "ctrl (settle p out s) = AwaitAll" "\<not> all_pending (settle p out s)"
  with live_woken [OF l] show "\<exists>out'. Resume out' \<in> set (jobs (settle p out s))" by auto
next
  assume "all_pending (settle p out s)"
  with live_nonempty [OF l] show "all_waiting (settle p out s) \<noteq> []" by simp
next
  fix q assume "all_pending (settle p out s)" "q \<in> set (all_waiting (settle p out s))"
  then have "OnAll q \<in> set (reactions s q) \<or> (\<exists>out. React (OnAll q) out \<in> set (jobs s))"
    using live_waiting [OF l, of q] by simp
  then show "OnAll q \<in> set (reactions (settle p out s) q) \<or>
      (\<exists>out'. React (OnAll q) out' \<in> set (jobs (settle p out s)))"
    by (cases "q = p") auto
qed

lemma live_advance:
  assumes c: "inv_ctrl s" and r: "ctrl s = Running"
  shows "inv_live (advance fn items (whole limit) s)"
proof -
  from c_all [OF c] r have np: "\<not> all_pending s" by auto
  show ?thesis
  proof (cases "length (started s) < length items")
    case True
    then have "ctrl (advance fn items (whole limit) s) \<noteq> AwaitAll" "\<not> all_pending (advance fn items (whole limit) s)"
      using r np by (auto simp add: advance_def Let_def split: call_result.splits)
    then show ?thesis by (intro inv_liveI) simp_all
  next
    case False
    define s1 where "s1 = subscribe OnAll (executing s) (s\<lparr>all_waiting := executing s, all_pending := True\<rparr>)"
    show ?thesis
    proof (cases "executing s = []")
      case True
      with False have "advance fn items (whole limit) s =
          s1\<lparr>all_pending := False, jobs := jobs s1 @ [Resume Fulfilled], ctrl := AwaitAll\<rparr>"
        by (simp add: advance_def Let_def s1_def)
      then show ?thesis by (intro inv_liveI) auto
    next
      case ne: False
      with False have a: "advance fn items (whole limit) s = s1\<lparr>ctrl := AwaitAll\<rparr>"
        by (simp add: advance_def Let_def s1_def)
      show ?thesis
        unfolding a
      proof (rule inv_liveI)
        assume "\<not> all_pending (s1\<lparr>ctrl := AwaitAll\<rparr>)"
        then show "\<exists>out. Resume out \<in> set (jobs (s1\<lparr>ctrl := AwaitAll\<rparr>))" by (simp add: s1_def)
      next
        show "all_waiting (s1\<lparr>ctrl := AwaitAll\<rparr>) \<noteq> []" using ne by (simp add: s1_def)
      next
        fix q assume "q \<in> set (all_waiting (s1\<lparr>ctrl := AwaitAll\<rparr>))"
        then have q: "q \<in> set (executing s)" by (simp add: s1_def)
        show "OnAll q \<in> set (reactions (s1\<lparr>ctrl := AwaitAll\<rparr>) q) \<or>
            (\<exists>out. React (OnAll q) out \<in> set (jobs (s1\<lparr>ctrl := AwaitAll\<rparr>)))"
        proof (cases "promise s q")
          case None
          with q show ?thesis by (simp add: s1_def reactions_subscribe)
        next
          case (Some out)
          with q have "React (OnAll q) out \<in> set (then_jobs OnAll (executing s)
              (s\<lparr>all_waiting := executing s, all_pending := True\<rparr>))"
            by (auto simp add: then_jobs_mem)
          then show ?thesis by (auto simp add: s1_def jobs_subscribe)
        qed
      qed
    qed
  qed
qed

lemma live_run_job:
  assumes c: "inv_ctrl s" and l: "inv_live s" and j: "jobs s = j # js"
  shows "inv_live (run_job j (s\<lparr>jobs := js\<rparr>))"
proof (cases j)
  case (Resume out)
  from c_resume [OF c, of out] j Resume have np: "\<not> all_pending s" by simp
  have "\<not> all_pending (run_job j (s\<lparr>jobs := js\<rparr>))"
    "ctrl (run_job j (s\<lparr>jobs := js\<rparr>)) = AwaitAll \<Longrightarrow> False"
    using np by (cases out; simp add: Resume split: if_splits)+
  then show ?thesis by (intro inv_liveI) auto
next
  case (React r out)
  have keep: "Resume x \<in> set js" if "Resume x \<in> set (jobs s)" for x
    using that j React by simp
  show ?thesis
  proof (cases r)
    case (OnFinally p)
    have f: "ctrl (run_job j (s\<lparr>jobs := js\<rparr>)) = ctrl s"
      "all_pending (run_job j (s\<lparr>jobs := js\<rparr>)) = all_pending s"
      "all_waiting (run_job j (s\<lparr>jobs := js\<rparr>)) = all_waiting s"
      "reactions (run_job j (s\<lparr>jobs := js\<rparr>)) = reactions s"
      "jobs (run_job j (s\<lparr>jobs := js\<rparr>)) = js"
      by (simp_all add: React OnFinally)
    show ?thesis
    proof (rule inv_liveI)
      assume "ctrl (run_job j (s\<lparr>jobs := js\<rparr>)) = AwaitAll" "\<not> all_pending (run_job j (s\<lparr>jobs := js\<rparr>))"
      with live_woken [OF l] keep show "\<exists>out. Resume out \<in> set (jobs (run_job j (s\<lparr>jobs := js\<rparr>)))"
        unfolding f by blast
    next
      assume "all_pending (run_job j (s\<lparr>jobs := js\<rparr>))"
      with live_nonempty [OF l] show "all_waiting (run_job j (s\<lparr>jobs := js\<rparr>)) \<noteq> []"
        unfolding f by simp
    next
      fix q assume "all_pending (run_job j (s\<lparr>jobs := js\<rparr>))"
        "q \<in> set (all_waiting (run_job j (s\<lparr>jobs := js\<rparr>)))"
      with live_waiting [OF l, of q] j React OnFinally
      show "OnAll q \<in> set (reactions (run_job j (s\<lparr>jobs := js\<rparr>)) q) \<or>
          (\<exists>out. React (OnAll q) out \<in> set (jobs (run_job j (s\<lparr>jobs := js\<rparr>))))"
        unfolding f by auto
    qed
  next
    case (OnRace n q')
    have f: "ctrl (run_job j (s\<lparr>jobs := js\<rparr>)) = ctrl s"
      "all_pending (run_job j (s\<lparr>jobs := js\<rparr>)) = all_pending s"
      "all_waiting (run_job j (s\<lparr>jobs := js\<rparr>)) = all_waiting s"
      "reactions (run_job j (s\<lparr>jobs := js\<rparr>)) = reactions s"
      "set js \<subseteq> set (jobs (run_job j (s\<lparr>jobs := js\<rparr>)))"
      by (auto simp add: React OnRace)
    show ?thesis
    proof (rule inv_liveI)
      assume "ctrl (run_job j (s\<lparr>jobs := js\<rparr>)) = AwaitAll" "\<not> all_pending (run_job j (s\<lparr>jobs := js\<rparr>))"
      with live_woken [OF l] keep f(5) show "\<exists>out. Resume out \<in> set (jobs (run_job j (s\<lparr>jobs := js\<rparr>)))"
        unfolding f(1,2) by blast
    next
      assume "all_pending (run_job j (s\<lparr>jobs := js\<rparr>))"
      with live_nonempty [OF l] show "all_waiting (run_job j (s\<lparr>jobs := js\<rparr>)) \<noteq> []"
        unfolding f by simp
    next
      fix q assume "all_pending (run_job j (s\<lparr>jobs := js\<rparr>))"
        "q \<in> set (all_waiting (run_job j (s\<lparr>jobs := js\<rparr>)))"
      then have "OnAll q \<in> set (reactions s q) \<or> (\<exists>out. React (OnAll q) out \<in> set js)"
        using live_waiting [OF l, of q] j React OnRace unfolding f(2,3) by auto
      with f(5) show "OnAll q \<in> set (reactions (run_job j (s\<lparr>jobs := js\<rparr>)) q) \<or>
          (\<exists>out. React (OnAll q) out \<in> set (jobs (run_job j (s\<lparr>jobs := js\<rparr>))))"
        unfolding f(4) by blast
    qed
  next
    case (OnAll q')
    show ?thesis
    proof (cases "all_pending s")
      case False
      then have f: "ctrl (run_job j (s\<lparr>jobs := js\<rparr>)) = ctrl s"
        "all_pending (run_job j (s\<lparr>jobs := js\<rparr>)) = False"
        "jobs (run_job j (s\<lparr>jobs := js\<rparr>)) = js"
        by (cases out; simp add: React OnAll)+
      show ?thesis
      proof (rule inv_liveI)
        assume "ctrl (run_job j (s\<lparr>jobs := js\<rparr>)) = AwaitAll"
        with live_woken [OF l] False keep show "\<exists>out. Resume out \<in> set (jobs (run_job j (s\<lparr>jobs := js\<rparr>)))"
          unfolding f by blast
      qed (simp_all add: f)
    next
      case ap: True
      show ?thesis
      proof (cases "out = Fulfilled \<and> removeAll q' (all_waiting s) \<noteq> []")
        case False
        then have "\<not> all_pending (run_job j (s\<lparr>jobs := js\<rparr>))"
          "\<exists>x. Resume x \<in> set (jobs (run_job j (s\<lparr>jobs := js\<rparr>)))"
          using ap by (cases out; auto simp add: React OnAll)+
        then show ?thesis by (intro inv_liveI) simp_all
      next
        case True
        then have f: "all_pending (run_job j (s\<lparr>jobs := js\<rparr>))"
          "all_waiting (run_job j (s\<lparr>jobs := js\<rparr>)) = removeAll q' (all_waiting s)"
          "reactions (run_job j (s\<lparr>jobs := js\<rparr>)) = reactions s"
          "jobs (run_job j (s\<lparr>jobs := js\<rparr>)) = js"
          using ap by (simp_all add: React OnAll)
        show ?thesis
        proof (rule inv_liveI)
          show "all_waiting (run_job j (s\<lparr>jobs := js\<rparr>)) \<noteq> []" using True f(2) by simp
        next
          fix q assume "q \<in> set (all_waiting (run_job j (s\<lparr>jobs := js\<rparr>)))"
          then have q: "q \<in> set (all_waiting s)" "q \<noteq> q'" unfolding f(2) by simp_all
          from live_waiting [OF l ap q(1)] q(2) j React OnAll
          show "OnAll q \<in> set (reactions (run_job j (s\<lparr>jobs := js\<rparr>)) q) \<or>
              (\<exists>out. React (OnAll q) out \<in> set (jobs (run_job j (s\<lparr>jobs := js\<rparr>))))"
            unfolding f(3,4) by auto
        qed (simp add: f(1))
      qed
    qed
  qed
qed

lemma live_step:
  assumes i: "inv items limit s" and l: "inv_live s" and st: "step fn items (whole limit) ev s = Some s'"
  shows "inv_live s'"
proof (cases ev)
  case Advance
  with st have "ctrl s = Running" "s' = advance fn items (whole limit) s"
    by (auto simp add: step_def split: if_splits)
  with live_advance [OF inv_parts(3) [OF i]] show ?thesis by simp
next
  case (Settle p out)
  with st have "s' = settle p out s"
    by (auto simp add: step_def split: if_splits)
  with live_settle [OF l] show ?thesis by simp
next
  case RunJob
  with st obtain j js where "jobs s = j # js" "s' = run_job j (s\<lparr>jobs := js\<rparr>)"
    by (auto simp add: step_def split: list.splits if_splits)
  with live_run_job [OF inv_parts(3) [OF i] l] show ?thesis by simp
qed

lemma weight_append: "weight (js @ js') = weight js + weight js'"
  by (induction js rule: weight.induct) simp_all

lemma weight_run_job:
  assumes "jobs s = j # js"
  shows "weight (jobs (run_job j (s\<lparr>jobs := js\<rparr>))) < weight (jobs s)"
proof (cases j)
  case (Resume out)
  then show ?thesis using assms by (cases out) simp_all
next
  case (React r out)
  show ?thesis
  proof (cases r)
    case (OnFinally p)
    with React assms show ?thesis by simp
  next
    case (OnRace n q)
    with React assms show ?thesis by (simp add: weight_append)
  next
    case (OnAll q)
    with React assms show ?thesis by (cases out) (simp_all add: weight_append)
  qed
qed

lemma ctrl_run_job:
  assumes "ctrl s = AwaitRace \<or> ctrl s = AwaitAll"
  shows "ctrl (run_job j (s\<lparr>jobs := js\<rparr>)) = ctrl s \<or>
    ctrl s = AwaitRace \<and> ctrl (run_job j (s\<lparr>jobs := js\<rparr>)) = Running \<or>
    ctrl (run_job j (s\<lparr>jobs := js\<rparr>)) = Returned \<or>
    ctrl (run_job j (s\<lparr>jobs := js\<rparr>)) = Threw"
proof (cases j)
  case (Resume out)
  then show ?thesis using assms by (cases out) auto
next
  case (React r out)
  show ?thesis
  proof (cases r)
    case (OnFinally p)
    with React show ?thesis by simp
  next
    case (OnRace n q)
    with React show ?thesis by simp
  next
    case (OnAll q)
    with React show ?thesis by (cases out) simp_all
  qed
qed

lemma phase_run_job:
  assumes "ctrl s = AwaitRace \<or> ctrl s = AwaitAll"
    and "ctrl (run_job j (s\<lparr>jobs := js\<rparr>)) \<noteq> Returned"
    and "ctrl (run_job j (s\<lparr>jobs := js\<rparr>)) \<noteq> Threw"
  shows "phase items (run_job j (s\<lparr>jobs := js\<rparr>)) = phase items s"
  using ctrl_run_job [OF assms(1), of j js] assms by (auto simp add: phase_def)

lemma running_run_job [simp]: "running (run_job j s) = running s"
  by (simp add: running_def)

lemma running_jobs_update [simp]: "running (s\<lparr>jobs := js\<rparr>) = running s"
  by (simp add: running_def)

lemma running_settle:
  assumes "p < length (started s)" "promise s p = None"
  shows "length (running (settle p out s)) < length (running s)"
proof -
  have "running (settle p out s) = filter (\<lambda>q. q \<noteq> p) (running s)"
    by (auto simp add: running_def intro: filter_cong)
  moreover have "p \<in> set (running s)" using assms by (simp add: running_set)
  ultimately show ?thesis by (simp add: length_filter_less)
qed

lemma phase_settle [simp]: "phase items (settle p out s) = phase items s"
  by (simp add: phase_def)

lemma phase_advance:
  assumes wf: "inv_wf items s" and r: "ctrl s = Running"
  shows "phase items (advance crawl_fn items (whole limit) s) < phase items s"
proof (cases "length (started s) < length items")
  case True
  then have "length (started (advance crawl_fn items (whole limit) s)) = Suc (length (started s))"
    by (simp add: started_advance crawl_fn_def)
  moreover from True r have "ctrl (advance crawl_fn items (whole limit) s) = Running \<or>
      ctrl (advance crawl_fn items (whole limit) s) = AwaitRace"
    by (simp add: advance_def Let_def crawl_fn_def)
  ultimately show ?thesis using True r by (auto simp add: phase_def)
next
  case False
  then have "ctrl (advance crawl_fn items (whole limit) s) = AwaitAll"
    "started (advance crawl_fn items (whole limit) s) = started s"
    by (simp_all add: advance_def Let_def)
  with r show ?thesis by (simp add: phase_def)
qed

text \<open>While \<open>pLimit\<close> waits with an empty job queue, a task is still running.\<close>

lemma waiting_for_task:
  assumes i: "inv items limit s" and l: "inv_live s"
    and w: "ctrl s = AwaitRace \<or> ctrl s = AwaitAll" "jobs s = []"
  shows "\<exists>p. p < length (started s) \<and> promise s p = None"
proof -
  note wf = inv_parts(1) [OF i]
  from w(1) show ?thesis
  proof
    assume r: "ctrl s = AwaitRace"
    from waiting_full(1) [OF i r w(2)] have "running s \<noteq> []" by auto
    then obtain p where "p \<in> set (running s)" by (cases "running s") auto
    then show ?thesis by (auto simp add: running_set)
  next
    assume a: "ctrl s = AwaitAll"
    from live_woken [OF l a] w(2) have ap: "all_pending s" by auto
    from live_nonempty [OF l ap] obtain q where q: "q \<in> set (all_waiting s)"
      by (cases "all_waiting s") auto
    from live_waiting [OF l ap q] w(2) have "OnAll q \<in> set (reactions s q)" by simp
    from wf_reaction [OF wf this] show ?thesis by auto
  qed
qed

text \<open>Whatever state the batch is in, it can run to its end.\<close>

lemma plimit_completes:
  assumes "inv items limit s" "inv_live s" "unrejected s"
  shows "\<exists>evs s'. run_events crawl_fn items (whole limit) evs s = Some s' \<and> ctrl s' = Returned \<and>
    (\<forall>p. Settle p Rejected \<notin> set evs)"
  using assms
proof (induction s rule: wf_induct_rule [OF wf_measures
      [of "[phase items, \<lambda>s. length (running s), \<lambda>s. weight (jobs s)]"]])
  case (1 s)
  note i = 1(2) and l = 1(3) and u = 1(4)
  note wf = inv_parts(1) [OF i]
  have next_state: ?case
    if st: "step crawl_fn items (whole limit) ev s = Some s1" and ev: "\<And>p. ev \<noteq> Settle p Rejected"
      and less: "ctrl s1 \<noteq> Returned \<Longrightarrow>
        (s1, s) \<in> measures [phase items, \<lambda>s. length (running s), \<lambda>s. weight (jobs s)]"
    for ev s1
  proof (cases "ctrl s1 = Returned")
    case True
    with st ev have "run_events crawl_fn items (whole limit) [ev] s = Some s1 \<and> ctrl s1 = Returned \<and>
        (\<forall>p. Settle p Rejected \<notin> set [ev])"
      by auto
    then show ?thesis by blast
  next
    case False
    have "inv items limit s1" by (rule inv_step [OF i st])
    moreover have "inv_live s1" by (rule live_step [OF i l st])
    moreover have "unrejected s1" by (rule unrejected_step [OF wf u st ev])
    ultimately obtain evs s' where "run_events crawl_fn items (whole limit) evs s1 = Some s'"
      "ctrl s' = Returned" "\<forall>p. Settle p Rejected \<notin> set evs"
      using 1(1) [OF less [OF False]] by blast
    with st ev have "run_events crawl_fn items (whole limit) (ev # evs) s = Some s' \<and> ctrl s' = Returned \<and>
        (\<forall>p. Settle p Rejected \<notin> set (ev # evs))"
      by auto
    then show ?thesis by blast
  qed
  have waiting: ?case if w: "ctrl s = AwaitRace \<or> ctrl s = AwaitAll"
  proof (cases "jobs s")
    case Nil
    from waiting_for_task [OF i l w Nil] obtain p where p: "p < length (started s)" "promise s p = None"
      by blast
    from w have "ctrl s \<noteq> Running" by auto
    with p have "step crawl_fn items (whole limit) (Settle p Fulfilled) s = Some (settle p Fulfilled s)"
      by (simp add: step_def)
    then show ?thesis
    proof (rule next_state)
      show "Settle p Fulfilled \<noteq> Settle q Rejected" for q by simp
      from running_settle [OF p, of Fulfilled]
      show "(settle p Fulfilled s, s) \<in>
          measures [phase items, \<lambda>s. length (running s), \<lambda>s. weight (jobs s)]"
        by simp
    qed
  next
    case (Cons j js)
    from w have "ctrl s \<noteq> Running" by auto
    with Cons have "step crawl_fn items (whole limit) RunJob s = Some (run_job j (s\<lparr>jobs := js\<rparr>))"
      by (simp add: step_def)
    then show ?thesis
    proof (rule next_state)
      show "RunJob \<noteq> Settle p Rejected" for p by simp
      assume nr: "ctrl (run_job j (s\<lparr>jobs := js\<rparr>)) \<noteq> Returned"
      have "unrejected (run_job j (s\<lparr>jobs := js\<rparr>))" by (rule unrejected_run_job [OF wf u Cons])
      then have nt: "ctrl (run_job j (s\<lparr>jobs := js\<rparr>)) \<noteq> Threw" by (rule unrejected_ctrl)
      from phase_run_job [OF w nr nt, of items] weight_run_job [OF Cons]
      show "(run_job j (s\<lparr>jobs := js\<rparr>), s) \<in>
          measures [phase items, \<lambda>s. length (running s), \<lambda>s. weight (jobs s)]"
        by simp
    qed
  qed
  show ?case
  proof (cases "ctrl s")
    case Running
    have "step crawl_fn items (whole limit) Advance s = Some (advance crawl_fn items (whole limit) s)"
      using Running by (simp add: step_def)
    then show ?thesis
    proof (rule next_state)
      show "Advance \<noteq> Settle p Rejected" for p by simp
      from phase_advance [OF wf Running, of limit]
      show "(advance crawl_fn items (whole limit) s, s) \<in>
          measures [phase items, \<lambda>s. length (running s), \<lambda>s. weight (jobs s)]"
        by simp
    qed
  next
    case Returned
    then have "run_events crawl_fn items (whole limit) [] s = Some s \<and> ctrl s = Returned \<and>
        (\<forall>p. Settle p Rejected \<notin> set [])"
      by simp
    then show ?thesis by blast
  next
    case Threw
    with unrejected_ctrl [OF u] show ?thesis by simp
  next
    case AwaitRace
    then show ?thesis by (intro waiting) simp
  next
    case AwaitAll
    then show ?thesis by (intro waiting) simp
  qed
qed

lemma live_run_events:
  "inv items limit s \<Longrightarrow> inv_live s \<Longrightarrow> run_events fn items (whole limit) evs s = Some s' \<Longrightarrow> inv_live s'"
proof (induction evs arbitrary: s)
  case Nil
  then show ?case by simp
next
  case (Cons ev evs)
  from Cons.prems(3) obtain s1 where s1: "step fn items (whole limit) ev s = Some s1"
    and rest: "run_events fn items (whole limit) evs s1 = Some s'"
    by (auto split: option.splits)
  from inv_step [OF Cons.prems(1) s1] live_step [OF Cons.prems(1,2) s1] rest
  show ?case by (rule Cons.IH)
qed

lemma crawl_completes:
  assumes run: "crawl_run e urls ua conc evs (plimit_init, []) = Some (s, out)"
  shows "\<exists>rest s' out'. crawl_run e urls ua conc rest (s, out) = Some (s', out') \<and> ctrl s' = Returned"
proof -
  have ev: "run_events crawl_fn urls (whole (crawl_limit urls conc)) evs plimit_init = Some s"
    using crawl_run_plimit [OF run] by (simp only: run_events_threshold [OF inv_init, symmetric])
  have i: "inv urls (crawl_limit urls conc) s" by (rule inv_run_events [OF inv_init ev])
  moreover have "inv_live s" by (rule live_run_events [OF inv_init live_init ev])
  moreover have "unrejected s" by (rule crawl_run_unrejected [OF inv_init unrejected_init run])
  ultimately obtain rest s'
    where rest: "run_events crawl_fn urls (whole (crawl_limit urls conc)) rest s = Some s'"
    and ret: "ctrl s' = Returned" and clean: "\<And>p. Settle p Rejected \<notin> set rest"
    using plimit_completes [of urls "crawl_limit urls conc" s] by blast
  from rest have "run_events crawl_fn urls (Math_max (Finite 1) conc) rest s = Some s'"
    by (simp only: run_events_threshold [OF i, symmetric])
  from crawl_run_finished [OF this clean, of e ua out] ret show ?thesis by blast
qed

lemma crawlBatch_returns: "\<exists>schedule results. crawlBatch e urls ua conc schedule = Some results"
proof -
  have "crawl_run e urls ua conc [] (plimit_init, []) = Some (plimit_init, [])" by simp
  from crawl_completes [OF this] obtain rest s' out'
    where "crawl_run e urls ua conc rest (plimit_init, []) = Some (s', out')" "ctrl s' = Returned"
    by blast
  then have "crawlBatch e urls ua conc rest = Some out'" by (simp add: crawlBatch_def)
  then show ?thesis by blast
qed

section \<open>The claims about crawlBatch and the enqueuers\<close>

text \<open>
  C4: \<open>crawlBatch\<close> returns under some schedule of the tasks, and whenever it returns, under
  whatever schedule, the list it returns has one result for every input URL: as many results
  as URLs, and, as a multiset, the results of the tasks of the URLs, whatever robots.txt said
  and whether the fetch answered, failed or threw; the URLs of the results are the input URLs
  up to order.
\<close>

theorem C4_one_result_per_url:
  "(\<exists>sch res. crawlBatch e urls userAgent concurrency sch = Some res) \<and>
   (crawlBatch e urls userAgent concurrency schedule = Some results \<longrightarrow>
      length results = length urls \<and>
      mset results = mset (map (\<lambda>u. snd (crawl_task e userAgent u)) urls) \<and>
      mset (map url results) = mset urls)"
proof (intro conjI impI)
  show "\<exists>sch res. crawlBatch e urls userAgent concurrency sch = Some res"
    by (rule crawlBatch_returns)
  assume r: "crawlBatch e urls userAgent concurrency schedule = Some results"
  show "length results = length urls" by (rule crawlBatch_length [OF r])
  show "mset results = mset (map (\<lambda>u. snd (crawl_task e userAgent u)) urls)"
    by (rule crawlBatch_results [OF r])
  show "mset (map url results) = mset urls" by (rule crawlBatch_urls [OF r])
qed

theorem C4_one_result_per_url_witness:
  "crawlBatch site_env batch_urls ''bot'' (Finite 3) batch_schedule = Some batch_results \<and>
   length batch_results = length batch_urls \<and>
   mset batch_results = mset (map (\<lambda>u. snd (crawl_task site_env ''bot'' u)) batch_urls) \<and>
   mset (map url batch_results) = mset batch_urls \<and>
   map url batch_results \<noteq> batch_urls"
proof -
  have ne: "map url batch_results \<noteq> batch_urls"
    by (simp add: batch_results_def batch_urls_def)
  note c = C4_one_result_per_url [where e = site_env and urls = batch_urls and userAgent = "''bot''" and
      concurrency = "Finite 3" and schedule = batch_schedule and results = batch_results,
      THEN conjunct2, rule_format, OF batch_crawl]
  from batch_crawl c [THEN conjunct1] c [THEN conjunct2, THEN conjunct1]
    c [THEN conjunct2, THEN conjunct2] ne
  show ?thesis by (intro conjI)
qed

text \<open>
  C6 does not hold as it is stated: an exception of the robots.txt fetch happens while the URL
  is processed and is caught, but the result is not \<open>{ok: false, status: 0}\<close> when the page
  fetch then answers. On a host whose robots.txt cannot be fetched while its page can, the
  result carries the status of the page.
\<close>

theorem C6_robots_exception_not_recorded:
  "fetch_of flaky_env ''https://flaky.example/robots.txt'' [(''User-Agent'', ''bot'')] = None \<and>
   crawl_task flaky_env ''bot'' ''https://flaky.example/p'' =
     ([''https://flaky.example/robots.txt'', ''https://flaky.example/p''],
      \<lparr>ok = True, status = 200, url = ''https://flaky.example/p''\<rparr>) \<and>
   snd (crawl_task flaky_env ''bot'' ''https://flaky.example/p'') \<noteq>
     \<lparr>ok = False, status = 0, url = ''https://flaky.example/p''\<rparr>"
  by code_simp

text \<open>
  C6, amended: a URL that robots.txt disallows gets the result \<open>{ok: true, status: 999}\<close>
  and the only request made for it is the one for robots.txt; for an allowed URL the page is
  requested, a page fetch that throws gives \<open>{ok: false, status: 0}\<close> and one that answers gives
  the \<open>ok\<close> and the status of the answer. An exception of the robots.txt fetch is not recorded:
  it makes the URL allowed. Under no schedule does \<open>pLimit\<close> end with an exception; the
  results collected at any moment are those of the tasks finished so far, and from there the
  batch can run to its end.
\<close>

theorem C6_per_url_outcomes:
  "(\<not> snd (allowedByRobots e u userAgent) \<longrightarrow>
      snd (crawl_task e userAgent u) = \<lparr>ok = True, status = 999, url = u\<rparr> \<and>
      (\<exists>parsed. url_of e u = Some parsed \<and>
         fst (crawl_task e userAgent u) = [origin parsed @ ''/robots.txt''])) \<and>
   (snd (allowedByRobots e u userAgent) \<longrightarrow>
      fst (crawl_task e userAgent u) = fst (allowedByRobots e u userAgent) @ [u] \<and>
      (fetch_of e u [(''User-Agent'', userAgent)] = None \<longrightarrow>
         snd (crawl_task e userAgent u) = \<lparr>ok = False, status = 0, url = u\<rparr>) \<and>
      (\<forall>res. fetch_of e u [(''User-Agent'', userAgent)] = Some res \<longrightarrow>
         snd (crawl_task e userAgent u) = \<lparr>ok = res_ok res, status = res_status res, url = u\<rparr>)) \<and>
   (crawl_run e urls userAgent concurrency schedule (plimit_init, []) = Some (s, out) \<longrightarrow>
      ctrl s \<noteq> Threw \<and> results_of e urls userAgent s out \<and>
      (\<exists>rest s' out'. crawl_run e urls userAgent concurrency rest (s, out) = Some (s', out') \<and>
         ctrl s' = Returned))"
proof (intro conjI impI)
  obtain requests allowed where a: "allowedByRobots e u userAgent = (requests, allowed)"
    by (cases "allowedByRobots e u userAgent")
  {
    assume "\<not> snd (allowedByRobots e u userAgent)"
    with a have no: "\<not> allowed" by simp
    then show "snd (crawl_task e userAgent u) = \<lparr>ok = True, status = 999, url = u\<rparr>"
      by (simp add: crawl_task_def a)
    from no have t: "fst (crawl_task e userAgent u) = requests"
      by (simp add: crawl_task_def a)
    from a no show "\<exists>parsed. url_of e u = Some parsed \<and>
        fst (crawl_task e userAgent u) = [origin parsed @ ''/robots.txt'']"
      unfolding t
      by (auto simp add: allowedByRobots_def Let_def split: option.splits if_splits)
  }
  {
    assume "snd (allowedByRobots e u userAgent)"
    with a have yes: "allowed" by simp
    then show "fst (crawl_task e userAgent u) = fst (allowedByRobots e u userAgent) @ [u]"
      by (simp add: crawl_task_def a split: option.splits)
    {
      assume "fetch_of e u [(''User-Agent'', userAgent)] = None"
      with yes show "snd (crawl_task e userAgent u) = \<lparr>ok = False, status = 0, url = u\<rparr>"
        by (simp add: crawl_task_def a)
    }
    from yes show "\<forall>res. fetch_of e u [(''User-Agent'', userAgent)] = Some res \<longrightarrow>
        snd (crawl_task e userAgent u) = \<lparr>ok = res_ok res, status = res_status res, url = u\<rparr>"
      by (simp add: crawl_task_def a)
  }
  assume run: "crawl_run e urls userAgent concurrency schedule (plimit_init, []) = Some (s, out)"
  from crawl_run_unrejected [OF inv_init unrejected_init run] show "ctrl s \<noteq> Threw"
    by (rule unrejected_ctrl)
  from results_of_init run show "results_of e urls userAgent s out"
    by (rule results_of_run)
  from run show "\<exists>rest s' out'.
      crawl_run e urls userAgent concurrency rest (s, out) = Some (s', out') \<and> ctrl s' = Returned"
    by (rule crawl_completes)
qed

theorem C6_per_url_outcomes_witness:
  "\<not> snd (allowedByRobots site_env ''https://site.example/private/x'' ''bot'') \<and>
   crawl_task site_env ''bot'' ''https://site.example/private/x'' =
     ([''https://site.example/robots.txt''],
      \<lparr>ok = True, status = 999, url = ''https://site.example/private/x''\<rparr>) \<and>
   snd (allowedByRobots site_env ''https://down.example/p'' ''bot'') \<and>
   fetch_of site_env ''https://down.example/p'' [(''User-Agent'', ''bot'')] = None \<and>
   snd (crawl_task site_env ''bot'' ''https://down.example/p'') =
     \<lparr>ok = False, status = 0, url = ''https://down.example/p''\<rparr> \<and>
   snd (allowedByRobots site_env ''https://site.example/3'' ''bot'') \<and>
   fetch_of site_env ''https://site.example/3'' [(''User-Agent'', ''bot'')] =
     Some \<lparr>res_status = 500, res_body = Some ''failed''\<rparr> \<and>
   snd (crawl_task site_env ''bot'' ''https://site.example/3'') =
     \<lparr>ok = False, status = 500, url = ''https://site.example/3''\<rparr> \<and>
   crawl_run site_env batch_urls ''bot'' (Finite 3) batch_schedule (plimit_init, []) =
     Some (the (run_events crawl_fn batch_urls (Finite 3) batch_schedule plimit_init), batch_results) \<and>
   ctrl (the (run_events crawl_fn batch_urls (Finite 3) batch_schedule plimit_init)) \<noteq> Threw \<and>
   results_of site_env batch_urls ''bot''
     (the (run_events crawl_fn batch_urls (Finite 3) batch_schedule plimit_init)) batch_results \<and>
   (\<exists>rest s' out'.
      crawl_run site_env batch_urls ''bot'' (Finite 3) rest
        (the (run_events crawl_fn batch_urls (Finite 3) batch_schedule plimit_init), batch_results) =
        Some (s', out') \<and>
      ctrl s' = Returned)"
proof -
  have priv: "\<not> snd (allowedByRobots site_env ''https://site.example/private/x'' ''bot'')"
    by code_simp
  have down: "snd (allowedByRobots site_env ''https://down.example/p'' ''bot'')"
    "fetch_of site_env ''https://down.example/p'' [(''User-Agent'', ''bot'')] = None"
    by code_simp+
  have three: "snd (allowedByRobots site_env ''https://site.example/3'' ''bot'')"
    "fetch_of site_env ''https://site.example/3'' [(''User-Agent'', ''bot'')] =
       Some \<lparr>res_status = 500, res_body = Some ''failed''\<rparr>"
    by code_simp+
  have url: "url_of site_env ''https://site.example/private/x'' =
      Some \<lparr>origin = ''https://site.example'', pathname = ''/private/x''\<rparr>"
    by (simp add: site_env_def simple_url_def)
  note p = C6_per_url_outcomes [where e = site_env and u = "''https://site.example/private/x''" and
      userAgent = "''bot''",
      THEN conjunct1, rule_format, OF priv]
  from p url have 1: "crawl_task site_env ''bot'' ''https://site.example/private/x'' =
     ([''https://site.example/robots.txt''],
      \<lparr>ok = True, status = 999, url = ''https://site.example/private/x''\<rparr>)"
    by (auto simp add: prod_eq_iff)
  note d = C6_per_url_outcomes [where e = site_env and u = "''https://down.example/p''" and
      userAgent = "''bot''",
      THEN conjunct2, THEN conjunct1, rule_format, OF down(1)]
  from d down(2) have 2: "snd (crawl_task site_env ''bot'' ''https://down.example/p'') =
     \<lparr>ok = False, status = 0, url = ''https://down.example/p''\<rparr>"
    by simp
  note t = C6_per_url_outcomes [where e = site_env and u = "''https://site.example/3''" and
      userAgent = "''bot''",
      THEN conjunct2, THEN conjunct1, rule_format, OF three(1)]
  from t three(2) have 3: "snd (crawl_task site_env ''bot'' ''https://site.example/3'') =
     \<lparr>ok = False, status = 500, url = ''https://site.example/3''\<rparr>"
    by (simp add: res_ok_def)
  note b = C6_per_url_outcomes [where e = site_env and urls = batch_urls and userAgent = "''bot''" and
      concurrency = "Finite 3" and schedule = batch_schedule and
      s = "the (run_events crawl_fn batch_urls (Finite 3) batch_schedule plimit_init)" and out = batch_results,
      THEN conjunct2, THEN conjunct2, rule_format, OF batch_run]
  from priv 1 down 2 three 3 batch_run b [THEN conjunct1] b [THEN conjunct2, THEN conjunct1]
    b [THEN conjunct2, THEN conjunct2]
  show ?thesis
    by (intro conjI)
qed

text \<open>
  C9: \<open>InlineEnqueuer.enqueueMany\<close> returns (it does under some schedule of the tasks), and
  what it returns is the number of URLs it was given, while the number it logs is that of the
  URLs whose result has \<open>ok\<close>. \<open>QueueEnqueuer.enqueueMany\<close> cuts the URLs
  into \<open>ceil (n / 1000)\<close> chunks, each of 1000 URLs but the last, none empty, which together are
  the URLs in order; when the queue accepts them all it has made one \<open>sendBatch\<close> call per chunk,
  in order, and returns the number of URLs.
\<close>

theorem C9_enqueue_counts:
  "(\<exists>sch l. InlineEnqueuer_enqueueMany e userAgent concurrency urls sch = Some (l, length urls)) \<and>
   (InlineEnqueuer_enqueueMany e userAgent concurrency urls schedule = Some (logged, n) \<longrightarrow>
      n = length urls \<and>
      logged = length (filter (\<lambda>u. ok (snd (crawl_task e userAgent u))) urls)) \<and>
   length (chunks_of urls) = (length urls + 999) div 1000 \<and>
   concat (chunks_of urls) = map (\<lambda>u. \<lparr>body = u\<rparr>) urls \<and>
   (\<forall>b \<in> set (chunks_of urls). 0 < length b \<and> length b \<le> 1000) \<and>
   (\<forall>k. Suc k < length (chunks_of urls) \<longrightarrow> length (chunks_of urls ! k) = 1000) \<and>
   (accept_all sendBatch q (chunks_of urls) = Some q' \<longrightarrow>
      QueueEnqueuer_enqueueMany sendBatch urls q =
        (Inr (length urls), q', map (\<lambda>b. (b, True)) (chunks_of urls)))"
proof (intro conjI impI allI ballI)
  from crawlBatch_returns [of e urls userAgent concurrency] obtain sch res
    where "crawlBatch e urls userAgent concurrency sch = Some res" by blast
  then have "InlineEnqueuer_enqueueMany e userAgent concurrency urls sch =
      Some (length (filter ok res), length urls)"
    by (simp add: InlineEnqueuer_enqueueMany_def)
  then show "\<exists>sch l. InlineEnqueuer_enqueueMany e userAgent concurrency urls sch = Some (l, length urls)"
    by blast
next
  assume a: "InlineEnqueuer_enqueueMany e userAgent concurrency urls schedule = Some (logged, n)"
  then obtain results where r: "crawlBatch e urls userAgent concurrency schedule = Some results"
    and l: "logged = length (filter ok results)" and n: "n = length urls"
    by (auto simp add: InlineEnqueuer_enqueueMany_def split: option.splits)
  show "n = length urls" by (rule n)
  show "logged = length (filter (\<lambda>u. ok (snd (crawl_task e userAgent u))) urls)"
    unfolding l by (rule count_ok [OF crawlBatch_results [OF r]])
next
  show "length (chunks_of urls) = (length urls + 999) div 1000" by (rule chunks_length)
  show "concat (chunks_of urls) = map (\<lambda>u. \<lparr>body = u\<rparr>) urls" by (rule concat_chunks)
next
  fix b assume "b \<in> set (chunks_of urls)"
  from chunk_sizes [OF this] show "0 < length b" and "length b \<le> 1000" by simp_all
next
  fix k assume "Suc k < length (chunks_of urls)"
  then show "length (chunks_of urls ! k) = 1000" by (rule chunk_full)
next
  assume "accept_all sendBatch q (chunks_of urls) = Some q'"
  then show "QueueEnqueuer_enqueueMany sendBatch urls q =
      (Inr (length urls), q', map (\<lambda>b. (b, True)) (chunks_of urls))"
    by (rule QueueEnqueuer_accepted)
qed

theorem C9_enqueue_counts_witness:
  "InlineEnqueuer_enqueueMany site_env ''bot'' (Finite 3) batch_urls batch_schedule = Some (2, 4) \<and>
   length batch_urls = 4 \<and>
   length (filter (\<lambda>u. ok (snd (crawl_task site_env ''bot'' u))) batch_urls) = 2 \<and>
   length (chunks_of many_urls) = 3 \<and>
   length (chunks_of many_urls ! 0) = 1000 \<and>
   length (chunks_of many_urls ! 1) = 1000 \<and>
   length (chunks_of many_urls ! 2) = 500 \<and>
   accept_all (bounded_queue 5) [] (chunks_of many_urls) = Some (chunks_of many_urls) \<and>
   QueueEnqueuer_enqueueMany (bounded_queue 5) many_urls [] =
     (Inr 2500, chunks_of many_urls, map (\<lambda>b. (b, True)) (chunks_of many_urls))"
proof -
  have inline: "InlineEnqueuer_enqueueMany site_env ''bot'' (Finite 3) batch_urls batch_schedule = Some (2, 4)"
    by (simp add: InlineEnqueuer_enqueueMany_def batch_crawl) (simp add: batch_results_def batch_urls_def)
  note c = C9_enqueue_counts [where e = site_env and userAgent = "''bot''" and concurrency = "Finite 3" and
      urls = batch_urls and schedule = batch_schedule and logged = 2 and n = 4]
  note m = C9_enqueue_counts [where urls = many_urls and sendBatch = "bounded_queue 5" and q = "[]" and
      q' = "chunks_of many_urls"]
  from c [THEN conjunct2, THEN conjunct1, rule_format, OF inline]
  have 1: "length batch_urls = 4"
    "length (filter (\<lambda>u. ok (snd (crawl_task site_env ''bot'' u))) batch_urls) = 2"
    by simp_all
  have acc: "accept_all (bounded_queue 5) [] (chunks_of many_urls) = Some (chunks_of many_urls)"
    unfolding many_chunks by (simp add: bounded_queue_def)
  from m [THEN conjunct2, THEN conjunct2, THEN conjunct2, THEN conjunct2, THEN conjunct2,
      THEN conjunct2, rule_format, OF acc]
  have 2: "QueueEnqueuer_enqueueMany (bounded_queue 5) many_urls [] =
      (Inr 2500, chunks_of many_urls, map (\<lambda>b. (b, True)) (chunks_of many_urls))"
    by (simp add: many_urls_def)
  have 3: "length (chunks_of many_urls) = 3" "length (chunks_of many_urls ! 0) = 1000"
    "length (chunks_of many_urls ! 1) = 1000" "length (chunks_of many_urls ! 2) = 500"
    unfolding many_chunks by simp_all
  from inline 1 2 3 acc show ?thesis by (intro conjI)
qed

text \<open>
  C10: when the queue accepts the first chunks and rejects the next one, \<open>enqueueMany\<close> ends with
  the exception of that \<open>sendBatch\<close> and returns no count; the calls it made are those for the
  accepted chunks, in order, and the rejected one, none for a later chunk; and the queue is left
  as the accepted chunks and the rejected call made it.
\<close>

theorem C10_partial_dispatch:
  "chunks_of urls = pre @ c # post \<Longrightarrow> accept_all sendBatch q pre = Some qk \<Longrightarrow>
   sendBatch qk c = (False, q') \<Longrightarrow>
   QueueEnqueuer_enqueueMany sendBatch urls q =
     (Inl SendBatchRejected, q', map (\<lambda>b. (b, True)) pre @ [(c, False)])"
  by (rule QueueEnqueuer_rejected)

theorem C10_partial_dispatch_witness:
  "chunks_of many_urls =
     [replicate 1000 \<lparr>body = ''https://site.example/1''\<rparr>,
      replicate 1000 \<lparr>body = ''https://site.example/1''\<rparr>] @
     replicate 500 \<lparr>body = ''https://site.example/1''\<rparr> # [] \<and>
   accept_all (bounded_queue 2) []
     [replicate 1000 \<lparr>body = ''https://site.example/1''\<rparr>,
      replicate 1000 \<lparr>body = ''https://site.example/1''\<rparr>] =
     Some [replicate 1000 \<lparr>body = ''https://site.example/1''\<rparr>,
           replicate 1000 \<lparr>body = ''https://site.example/1''\<rparr>] \<and>
   bounded_queue 2
     [replicate 1000 \<lparr>body = ''https://site.example/1''\<rparr>,
      replicate 1000 \<lparr>body = ''https://site.example/1''\<rparr>]
     (replicate 500 \<lparr>body = ''https://site.example/1''\<rparr>) =
     (False, [replicate 1000 \<lparr>body = ''https://site.example/1''\<rparr>,
              replicate 1000 \<lparr>body = ''https://site.example/1''\<rparr>]) \<and>
   QueueEnqueuer_enqueueMany (bounded_queue 2) many_urls [] =
     (Inl SendBatchRejected,
      [replicate 1000 \<lparr>body = ''https://site.example/1''\<rparr>,
       replicate 1000 \<lparr>body = ''https://site.example/1''\<rparr>],
      [(replicate 1000 \<lparr>body = ''https://site.example/1''\<rparr>, True),
       (replicate 1000 \<lparr>body = ''https://site.example/1''\<rparr>, True),
       (replicate 500 \<lparr>body = ''https://site.example/1''\<rparr>, False)])"
proof -
  let ?full = "replicate 1000 \<lparr>body = ''https://site.example/1''\<rparr>"
  let ?last = "replicate 500 \<lparr>body = ''https://site.example/1''\<rparr>"
  have 1: "chunks_of many_urls = [?full, ?full] @ ?last # []"
    unfolding many_chunks by simp
  have 2: "accept_all (bounded_queue 2) [] [?full, ?full] = Some [?full, ?full]"
    by (simp add: bounded_queue_def)
  have 3: "bounded_queue 2 [?full, ?full] ?last = (False, [?full, ?full])"
    by (simp add: bounded_queue_def)
  from C10_partial_dispatch [OF 1 2 3]
  have "QueueEnqueuer_enqueueMany (bounded_queue 2) many_urls [] =
      (Inl SendBatchRejected, [?full, ?full], [(?full, True), (?full, True), (?last, False)])"
    by simp
  with 1 2 3 show ?thesis by (intro conjI)
qed


end
